theory Spec2Isabelle
  imports Main "HOL-Library.Word"
begin

section \<open>The van::pool allocator and its registry\<close>

text \<open>
  A shallow embedding of \<^verbatim>\<open>pool.h\<close>. Pointers are addresses (natural numbers, in bytes),
  the null pointer is address 0. \<^verbatim>\<open>std::type_index\<close> values are natural numbers.
  The locks of the source are not modelled: every operation below is one critical section.
  Member names of the source end in an underscore; here the members of \<^verbatim>\<open>Pool<T>\<close> are
  prefixed \<open>m_\<close>, those of \<^verbatim>\<open>Channel\<close> \<open>ch_\<close>, those of \<^verbatim>\<open>Monitor\<close> \<open>mon_\<close> and those of
  \<^verbatim>\<open>Count\<close> \<open>c_\<close>.
\<close>

type_synonym addr = nat
type_synonym tidx = nat

definition nullptr :: addr where
  "nullptr = 0"

datatype error = NullDeref | UseAfterFree

subsection \<open>The container type Pools\<close>

text \<open>
  \<^verbatim>\<open>Pools = std::unordered_map<std::type_index, std::unordered_set<Pool<void>*>>\<close>.
  The map is an association list and each set a list; the order of the lists stands for the
  iteration order of the containers, which C++ leaves unspecified.
\<close>

type_synonym Pools = "(tidx \<times> addr list) list"

text \<open>\<^verbatim>\<open>m[t]\<close> followed by an operation \<open>f\<close> on the set it refers to; \<^verbatim>\<open>operator[]\<close> inserts an
  empty set under a key that is absent.\<close>

fun at_key :: "(addr list \<Rightarrow> addr list) \<Rightarrow> tidx \<Rightarrow> Pools \<Rightarrow> Pools" where
  "at_key f t [] = [(t, f [])]"
| "at_key f t ((k, s) # m) = (if k = t then (k, f s) # m else (k, s) # at_key f t m)"

definition set_insert :: "addr \<Rightarrow> addr list \<Rightarrow> addr list" where
  "set_insert p s = (if p \<in> set s then s else s @ [p])"

definition set_erase :: "addr \<Rightarrow> addr list \<Rightarrow> addr list" where
  "set_erase p s = removeAll p s"

definition map_erase :: "tidx \<Rightarrow> Pools \<Rightarrow> Pools" where
  "map_erase t m = filter (\<lambda>e. fst e \<noteq> t) m"

text \<open>The pools stored under a type, as a set; the empty set when the type has no entry.\<close>

definition pool_set :: "Pools \<Rightarrow> tidx \<Rightarrow> addr set" where
  "pool_set m t = (case map_of m t of None \<Rightarrow> {} | Some s \<Rightarrow> set s)"

text \<open>What the container types guarantee: keys are unique, and so are the elements of a set.\<close>

definition wf_Pools :: "Pools \<Rightarrow> bool" where
  "wf_Pools m = (distinct (map fst m) \<and> list_all (\<lambda>e. distinct (snd e)) m)"

subsection \<open>IMonitor and Channel\<close>

text \<open>A call of one of the two virtual functions of \<^verbatim>\<open>IMonitor\<close>.\<close>

datatype call = Created tidx addr | Deleted tidx addr

record Channel =
  ch_pools :: Pools
  ch_mon :: addr

text \<open>\<^verbatim>\<open>Channel() = default\<close>.\<close>

definition Channel_init :: Channel where
  "Channel_init = \<lparr>ch_pools = [], ch_mon = nullptr\<rparr>"

text \<open>The operations of the channel return the calls they make on the observer, in order.\<close>

text \<open>The two nested loops of \<^verbatim>\<open>pass_all\<close>: one call of \<^verbatim>\<open>created\<close> for every pool of every
  type of the map.\<close>

definition replay :: "Pools \<Rightarrow> call list" where
  "replay m = concat (map (\<lambda>(t, poolset). map (Created t) poolset) m)"

definition pass_all :: "Channel \<Rightarrow> call list" where
  "pass_all c =
     (if ch_mon c = nullptr then []
      else if ch_pools c = [] then []
      else replay (ch_pools c))"

definition Channel_set :: "addr \<Rightarrow> Channel \<Rightarrow> call list \<times> Channel" where
  "Channel_set mon c = (let c' = c\<lparr>ch_mon := mon\<rparr> in (pass_all c', c'))"

definition Channel_created :: "tidx \<Rightarrow> addr \<Rightarrow> Channel \<Rightarrow> call list \<times> Channel" where
  "Channel_created t pool c =
     (if ch_mon c \<noteq> nullptr then (Created t pool # pass_all c, c)
      else ([], c\<lparr>ch_pools := at_key (set_insert pool) t (ch_pools c)\<rparr>))"

definition Channel_deleted :: "tidx \<Rightarrow> addr \<Rightarrow> Channel \<Rightarrow> call list \<times> Channel" where
  "Channel_deleted t pool c =
     (if ch_mon c \<noteq> nullptr then (Deleted t pool # pass_all c, c)
      else ([], c\<lparr>ch_pools := at_key (set_erase pool) t (ch_pools c)\<rparr>))"

subsection \<open>Pool\<close>

text \<open>
  The members of \<^verbatim>\<open>Pool<T>\<close>, and the memory its pointers refer to: \<open>Obj_next\<close> holds the
  \<^verbatim>\<open>next_\<close> member of the \<^verbatim>\<open>Obj\<close> at each address, \<open>Block_next\<close> the \<^verbatim>\<open>next_\<close> member of the
  \<^verbatim>\<open>Block\<close> at each address. \<^verbatim>\<open>int\<close> is 32 bits wide, \<^verbatim>\<open>uint64_t\<close> 64 bits.
  The member \<^verbatim>\<open>inst_\<close> is the first member of \<^verbatim>\<open>Obj\<close>, so an \<^verbatim>\<open>Obj*\<close> and the \<^verbatim>\<open>T*\<close> handed
  to the caller are the same address. The two memories are separate from each other and
  from the members: a pointer passed to \<^verbatim>\<open>ret\<close> is taken to be the address of an \<^verbatim>\<open>Obj\<close> that
  overlaps neither the pool object, nor a block header, nor an \<^verbatim>\<open>Obj\<close> at another address.
\<close>

record Pool =
  m_curr :: addr
  m_last :: addr
  m_free :: addr
  m_blocks :: addr
  m_cnt :: "32 word"
  m_total_cnt :: "64 word"
  m_use_cnt :: "64 word"
  Obj_next :: "addr \<Rightarrow> addr"
  Block_next :: "addr \<Rightarrow> addr"

text \<open>\<^verbatim>\<open>sizeof(Block)\<close>: one pointer. \<^verbatim>\<open>sizeof(Obj)\<close> depends on \<open>T\<close> and is the parameter
  \<open>so\<close> of the functions below.\<close>

definition sizeof_Block :: nat where
  "sizeof_Block = 8"

text \<open>The argument of \<^verbatim>\<open>malloc\<close> in \<^verbatim>\<open>new_block\<close>, computed in \<^verbatim>\<open>size_t\<close>.\<close>

definition malloc_size :: "nat \<Rightarrow> 32 word \<Rightarrow> nat" where
  "malloc_size so cnt = (sizeof_Block + (so * unat (scast cnt :: 64 word)) mod 2 ^ 64) mod 2 ^ 64"

text \<open>The default member initialisers, applied to the raw storage of the object.\<close>

definition Pool_init :: "Pool \<Rightarrow> Pool" where
  "Pool_init raw = raw\<lparr>m_curr := nullptr, m_last := nullptr, m_free := nullptr,
     m_blocks := nullptr, m_cnt := 128, m_total_cnt := 0, m_use_cnt := 0\<rparr>"

text \<open>
  \<^verbatim>\<open>malloc\<close> belongs to the C library: \<open>mal n\<close> is the address it returns for a request of
  \<open>n\<close> bytes. The source does not test the result; writing through a null pointer is the
  error \<open>NullDeref\<close>.
\<close>

definition new_block :: "nat \<Rightarrow> (nat \<Rightarrow> addr) \<Rightarrow> Pool \<Rightarrow> error + Pool" where
  "new_block so mal p =
     (let block = mal (malloc_size so (m_cnt p)) in
      if block = nullptr then Inl NullDeref
      else Inr (p\<lparr>Block_next := (Block_next p)(block := m_blocks p),
                  m_blocks := block,
                  m_curr := block + sizeof_Block,
                  m_last := nat (int (block + sizeof_Block) + sint (m_cnt p) * int so),
                  m_total_cnt := m_total_cnt p + scast (m_cnt p)\<rparr>))"

definition get :: "nat \<Rightarrow> (nat \<Rightarrow> addr) \<Rightarrow> Pool \<Rightarrow> error + (addr \<times> Pool)" where
  "get so mal p0 =
     (let p = p0\<lparr>m_use_cnt := m_use_cnt p0 + 1\<rparr> in
      if m_free p \<noteq> nullptr then
        Inr (m_free p, p\<lparr>m_free := Obj_next p (m_free p)\<rparr>)
      else
        (case (if m_last p \<le> m_curr p then new_block so mal p else Inr p) of
           Inl e \<Rightarrow> Inl e
         | Inr p' \<Rightarrow> Inr (m_curr p', p'\<lparr>m_curr := m_curr p' + so\<rparr>)))"

definition ret :: "addr \<Rightarrow> Pool \<Rightarrow> error + Pool" where
  "ret t p0 =
     (let p = p0\<lparr>m_use_cnt := m_use_cnt p0 - 1\<rparr> in
      if t = nullptr then Inl NullDeref
      else Inr (p\<lparr>Obj_next := (Obj_next p)(t := m_free p), m_free := t\<rparr>))"

text \<open>The two accessors, with the object they leave behind.\<close>

definition total_cnt :: "Pool \<Rightarrow> 64 word \<times> Pool" where
  "total_cnt p = (m_total_cnt p, p)"

definition use_cnt :: "Pool \<Rightarrow> 64 word \<times> Pool" where
  "use_cnt p = (m_use_cnt p, p)"

subsection \<open>Sequences of calls on one pool\<close>

text \<open>\<open>Get mal\<close> is a call of \<^verbatim>\<open>get()\<close> during which \<^verbatim>\<open>malloc\<close> behaves as \<open>mal\<close>; \<open>Ret t\<close> is
  \<^verbatim>\<open>ret(t)\<close>. A run returns the addresses handed out by its \<^verbatim>\<open>get()\<close> calls, in order.\<close>

datatype op = Get "nat \<Rightarrow> addr" | Ret addr

fun run :: "nat \<Rightarrow> op list \<Rightarrow> Pool \<Rightarrow> error + (addr list \<times> Pool)" where
  "run so [] p = Inr ([], p)"
| "run so (Get mal # ops) p =
     (case get so mal p of
        Inl e \<Rightarrow> Inl e
      | Inr (x, p') \<Rightarrow>
          (case run so ops p' of Inl e \<Rightarrow> Inl e | Inr (xs, p'') \<Rightarrow> Inr (x # xs, p'')))"
| "run so (Ret t # ops) p =
     (case ret t p of Inl e \<Rightarrow> Inl e | Inr p' \<Rightarrow> run so ops p')"

fun gets :: "op list \<Rightarrow> nat" where
  "gets [] = 0"
| "gets (Get mal # ops) = Suc (gets ops)"
| "gets (Ret t # ops) = gets ops"

fun rets :: "op list \<Rightarrow> nat" where
  "rets [] = 0"
| "rets (Get mal # ops) = rets ops"
| "rets (Ret t # ops) = Suc (rets ops)"

subsection \<open>Monitor\<close>

record Monitor =
  mon_pools :: Pools

definition Monitor_init :: Monitor where
  "Monitor_init = \<lparr>mon_pools = []\<rparr>"

definition Monitor_created :: "tidx \<Rightarrow> addr \<Rightarrow> Monitor \<Rightarrow> Monitor" where
  "Monitor_created t pool m = m\<lparr>mon_pools := at_key (set_insert pool) t (mon_pools m)\<rparr>"

definition Monitor_deleted :: "tidx \<Rightarrow> addr \<Rightarrow> Monitor \<Rightarrow> Monitor" where
  "Monitor_deleted t pool m =
     (let pools = at_key (set_erase pool) t (mon_pools m) in
      if map_of pools t = Some [] then m\<lparr>mon_pools := map_erase t pools\<rparr>
      else m\<lparr>mon_pools := pools\<rparr>)"

text \<open>The virtual calls made by the channel reach the monitor in the order they are made.\<close>

fun dispatch :: "Monitor \<Rightarrow> call \<Rightarrow> Monitor" where
  "dispatch m (Created t pool) = Monitor_created t pool m"
| "dispatch m (Deleted t pool) = Monitor_deleted t pool m"

definition deliver :: "call list \<Rightarrow> Monitor \<Rightarrow> Monitor" where
  "deliver calls m = foldl dispatch m calls"

record Count =
  c_total :: "64 word"
  c_use :: "64 word"
  c_pool :: "64 word"

definition Count_init :: Count where
  "Count_init = \<lparr>c_total = 0, c_use = 0, c_pool = 0\<rparr>"

type_synonym Stat = "tidx \<rightharpoonup> Count"

subsection \<open>The process: channel, monitor and the pool objects\<close>

text \<open>
  \<open>w_pools\<close> maps the address of every pool object that has been constructed and not yet
  destroyed to the object. \<open>w_channel\<close> is \<^verbatim>\<open>Channel::inst()\<close> and \<open>w_monitor\<close> the object behind
  \<^verbatim>\<open>Monitor::inst()\<close>, the only implementation of \<^verbatim>\<open>IMonitor\<close>.
\<close>

record World =
  w_channel :: Channel
  w_monitor :: Monitor
  w_pools :: "addr \<Rightarrow> Pool option"

definition World_init :: World where
  "World_init = \<lparr>w_channel = Channel_init, w_monitor = Monitor_init, w_pools = (\<lambda>x. None)\<rparr>"

text \<open>\<^verbatim>\<open>Pool(int cnt)\<close> for the element type \<open>t\<close>, constructing the object at address \<open>this\<close>
  in the storage \<open>raw\<close>: \<open>Pool_object\<close> is the object the constructor builds before it
  registers it with the channel.\<close>

definition Pool_object :: "nat \<Rightarrow> (nat \<Rightarrow> addr) \<Rightarrow> 32 word \<Rightarrow> Pool \<Rightarrow> error + Pool" where
  "Pool_object so mal cnt raw =
     (if 0 <s cnt then new_block so mal ((Pool_init raw)\<lparr>m_cnt := cnt\<rparr>)
      else Inr (Pool_init raw))"

definition Pool_ctor ::
  "nat \<Rightarrow> (nat \<Rightarrow> addr) \<Rightarrow> tidx \<Rightarrow> addr \<Rightarrow> 32 word \<Rightarrow> Pool \<Rightarrow> World \<Rightarrow> error + World" where
  "Pool_ctor so mal t this cnt raw w =
     (case Pool_object so mal cnt raw of
        Inl e \<Rightarrow> Inl e
      | Inr p \<Rightarrow>
          (let (calls, c) = Channel_created t this (w_channel w) in
           Inr (w\<lparr>w_channel := c, w_monitor := deliver calls (w_monitor w),
                  w_pools := (w_pools w)(this \<mapsto> p)\<rparr>)))"

text \<open>\<^verbatim>\<open>~Pool()\<close>. The loop that hands the blocks back to \<^verbatim>\<open>free\<close> has no effect on the
  channel, the monitor or any other pool and is left out; the object is gone afterwards.\<close>

definition Pool_dtor :: "tidx \<Rightarrow> addr \<Rightarrow> World \<Rightarrow> World" where
  "Pool_dtor t this w =
     (let (calls, c) = Channel_deleted t this (w_channel w) in
      w\<lparr>w_channel := c, w_monitor := deliver calls (w_monitor w),
        w_pools := (w_pools w)(this := None)\<rparr>)"

text \<open>\<^verbatim>\<open>Monitor()\<close> and \<^verbatim>\<open>~Monitor()\<close>.\<close>

definition Monitor_ctor :: "addr \<Rightarrow> World \<Rightarrow> World" where
  "Monitor_ctor this w =
     (let (calls, c) = Channel_set this (w_channel w) in
      w\<lparr>w_channel := c, w_monitor := deliver calls Monitor_init\<rparr>)"

definition Monitor_dtor :: "World \<Rightarrow> World" where
  "Monitor_dtor w =
     (let (calls, c) = Channel_set nullptr (w_channel w) in
      w\<lparr>w_channel := c, w_monitor := deliver calls (w_monitor w)\<rparr>)"

text \<open>
  \<^verbatim>\<open>Monitor::stat()\<close>. The functions thread the pool objects through the two loops, so that a
  write to a pool would show in the result. Calling a member function through a pointer to a
  pool that has been destroyed is the error \<open>UseAfterFree\<close>.
\<close>

fun stat_poolset ::
  "addr list \<Rightarrow> Count \<Rightarrow> (addr \<Rightarrow> Pool option) \<Rightarrow> error + (Count \<times> (addr \<Rightarrow> Pool option))" where
  "stat_poolset [] cnt h = Inr (cnt, h)"
| "stat_poolset (pool # rest) cnt h =
     (case h pool of
        None \<Rightarrow> Inl UseAfterFree
      | Some p \<Rightarrow>
          (let (tc, p1) = total_cnt p;
               cnt1 = cnt\<lparr>c_total := c_total cnt + tc\<rparr>;
               (uc, p2) = use_cnt p1;
               cnt2 = cnt1\<lparr>c_use := c_use cnt1 + uc\<rparr>
           in stat_poolset rest cnt2 (h(pool \<mapsto> p2))))"

fun stat_types ::
  "Pools \<Rightarrow> Stat \<Rightarrow> (addr \<Rightarrow> Pool option) \<Rightarrow> error + (Stat \<times> (addr \<Rightarrow> Pool option))" where
  "stat_types [] stat h = Inr (stat, h)"
| "stat_types ((t, poolset) # rest) stat h =
     (case stat_poolset poolset Count_init h of
        Inl e \<Rightarrow> Inl e
      | Inr (cnt, h') \<Rightarrow>
          stat_types rest (stat(t \<mapsto> cnt\<lparr>c_pool := of_nat (length poolset)\<rparr>)) h')"

definition Monitor_stat :: "World \<Rightarrow> error + (Stat \<times> World)" where
  "Monitor_stat w =
     (case stat_types (mon_pools (w_monitor w)) Map.empty (w_pools w) of
        Inl e \<Rightarrow> Inl e
      | Inr (stat, h) \<Rightarrow> Inr (stat, w\<lparr>w_pools := h\<rparr>))"

subsection \<open>The accessors\<close>

text \<open>
  \<^verbatim>\<open>get_singleton_pool<T>(cnt)\<close> and \<^verbatim>\<open>get_tls_pool<T>(cnt)\<close> own a function-local static
  (thread-local) pool at the address \<open>this\<close>, constructed by the first call that reaches
  the declaration; both return a reference to it. The warm-up functions only call them.
\<close>

definition get_singleton_pool ::
  "nat \<Rightarrow> (nat \<Rightarrow> addr) \<Rightarrow> tidx \<Rightarrow> addr \<Rightarrow> 32 word \<Rightarrow> Pool \<Rightarrow> World \<Rightarrow> error + World" where
  "get_singleton_pool so mal t this cnt raw w =
     (case w_pools w this of
        Some p \<Rightarrow> Inr w
      | None \<Rightarrow> Pool_ctor so mal t this cnt raw w)"

definition warm_up_singleton ::
  "nat \<Rightarrow> (nat \<Rightarrow> addr) \<Rightarrow> tidx \<Rightarrow> addr \<Rightarrow> 32 word \<Rightarrow> Pool \<Rightarrow> World \<Rightarrow> error + World" where
  "warm_up_singleton so mal t this cnt raw w = get_singleton_pool so mal t this cnt raw w"

definition get_tls_pool ::
  "nat \<Rightarrow> (nat \<Rightarrow> addr) \<Rightarrow> tidx \<Rightarrow> addr \<Rightarrow> 32 word \<Rightarrow> Pool \<Rightarrow> World \<Rightarrow> error + World" where
  "get_tls_pool so mal t this cnt raw w =
     (case w_pools w this of
        Some p \<Rightarrow> Inr w
      | None \<Rightarrow> Pool_ctor so mal t this cnt raw w)"

definition warm_up_tls_pool ::
  "nat \<Rightarrow> (nat \<Rightarrow> addr) \<Rightarrow> tidx \<Rightarrow> addr \<Rightarrow> 32 word \<Rightarrow> Pool \<Rightarrow> World \<Rightarrow> error + World" where
  "warm_up_tls_pool so mal t this cnt raw w = get_tls_pool so mal t this cnt raw w"

subsection \<open>Registrations while no observer is attached\<close>

text \<open>A pool constructed or destroyed: the call of \<^verbatim>\<open>Channel::created\<close> or
  \<^verbatim>\<open>Channel::deleted\<close> it makes. \<open>registrations\<close> performs the calls in order and collects the
  calls made on the observer.\<close>

datatype reg = Construct tidx addr | Destroy tidx addr

fun registrations :: "reg list \<Rightarrow> Channel \<Rightarrow> call list \<times> Channel" where
  "registrations [] c = ([], c)"
| "registrations (Construct t pool # es) c =
     (let (calls, c') = Channel_created t pool c; (calls', c'') = registrations es c'
      in (calls @ calls', c''))"
| "registrations (Destroy t pool # es) c =
     (let (calls, c') = Channel_deleted t pool c; (calls', c'') = registrations es c'
      in (calls @ calls', c''))"

text \<open>The pools that are live after a sequence of constructions and destructions, in the
  words of the specification: every pool constructed so far and not destroyed since.\<close>

fun live_pools :: "reg list \<Rightarrow> (tidx \<times> addr) set \<Rightarrow> (tidx \<times> addr) set" where
  "live_pools [] S = S"
| "live_pools (Construct t pool # es) S = live_pools es (insert (t, pool) S)"
| "live_pools (Destroy t pool # es) S = live_pools es (S - {(t, pool)})"

subsection \<open>The contracts of malloc and of ret\<close>

text \<open>The bytes of a block for \<open>cnt\<close> slots, and the address of slot \<open>i\<close> of the block at \<open>b\<close>:
  the slots follow the \<^verbatim>\<open>Block\<close> header.\<close>

definition block_bytes :: "nat \<Rightarrow> 32 word \<Rightarrow> nat" where
  "block_bytes so cnt = sizeof_Block + so * unat cnt"

definition slot :: "nat \<Rightarrow> addr \<Rightarrow> nat \<Rightarrow> addr" where
  "slot so b i = b + sizeof_Block + i * so"

text \<open>
  What the C library promises of \<^verbatim>\<open>malloc(n)\<close>: the result \<open>b\<close> is null, or \<open>n\<close> bytes from \<open>b\<close> lie
  in the 64-bit address space and overlap none of the blocks \<open>B\<close> that were obtained before
  and not released (a pool releases its blocks in its destructor only; all have \<open>n\<close> bytes).
\<close>

definition malloc_ok :: "nat \<Rightarrow> addr \<Rightarrow> addr list \<Rightarrow> bool" where
  "malloc_ok n b B =
     (b = nullptr \<or> (b + n \<le> 2 ^ 64 \<and> list_all (\<lambda>b'. b + n \<le> b' \<or> b' + n \<le> b) B))"

text \<open>The condition under which \<^verbatim>\<open>get()\<close> calls \<^verbatim>\<open>new_block()\<close>.\<close>

definition grows :: "Pool \<Rightarrow> bool" where
  "grows p = (m_free p = nullptr \<and> m_last p \<le> m_curr p)"

text \<open>\<open>malloc_respects so ops p B\<close>: in the run of \<open>ops\<close> from \<open>p\<close>, whose blocks are \<open>B\<close>, every
  call of \<^verbatim>\<open>malloc\<close> keeps the promise.\<close>

fun malloc_respects :: "nat \<Rightarrow> op list \<Rightarrow> Pool \<Rightarrow> addr list \<Rightarrow> bool" where
  "malloc_respects so [] p B = True"
| "malloc_respects so (Get mal # ops) p B =
     (let n = malloc_size so (m_cnt p) in
      if grows p then
        malloc_ok n (mal n) B \<and>
        (case get so mal p of
           Inl e \<Rightarrow> True
         | Inr (x, p') \<Rightarrow> malloc_respects so ops p' (mal n # B))
      else
        (case get so mal p of
           Inl e \<Rightarrow> True
         | Inr (x, p') \<Rightarrow> malloc_respects so ops p' B))"
| "malloc_respects so (Ret t # ops) p B =
     (case ret t p of Inl e \<Rightarrow> True | Inr p' \<Rightarrow> malloc_respects so ops p' B)"

text \<open>\<open>caller_respects so ops p L\<close>: in the run of \<open>ops\<close> from \<open>p\<close>, where the caller holds the
  slots \<open>L\<close>, every \<^verbatim>\<open>ret(t)\<close> passes a pointer that a preceding \<^verbatim>\<open>get()\<close> returned and that has
  not been returned since.\<close>

fun caller_respects :: "nat \<Rightarrow> op list \<Rightarrow> Pool \<Rightarrow> addr list \<Rightarrow> bool" where
  "caller_respects so [] p L = True"
| "caller_respects so (Get mal # ops) p L =
     (case get so mal p of
        Inl e \<Rightarrow> True
      | Inr (x, p') \<Rightarrow> caller_respects so ops p' (x # L))"
| "caller_respects so (Ret t # ops) p L =
     (t \<in> set L \<and>
      (case ret t p of Inl e \<Rightarrow> True | Inr p' \<Rightarrow> caller_respects so ops p' (remove1 t L)))"

text \<open>\<open>returns_issued so ops p R\<close>: in the run of \<open>ops\<close> from \<open>p\<close>, where the calls of \<^verbatim>\<open>get()\<close>
  have returned the addresses \<open>R\<close> so far, every \<^verbatim>\<open>ret(t)\<close> passes a pointer that some preceding
  \<^verbatim>\<open>get()\<close> returned; it may have been returned to the pool before.\<close>

fun returns_issued :: "nat \<Rightarrow> op list \<Rightarrow> Pool \<Rightarrow> addr list \<Rightarrow> bool" where
  "returns_issued so [] p R = True"
| "returns_issued so (Get mal # ops) p R =
     (case get so mal p of
        Inl e \<Rightarrow> True
      | Inr (x, p') \<Rightarrow> returns_issued so ops p' (x # R))"
| "returns_issued so (Ret t # ops) p R =
     (t \<in> set R \<and>
      (case ret t p of Inl e \<Rightarrow> True | Inr p' \<Rightarrow> returns_issued so ops p' R))"

text \<open>The blocks a pool owns when its constructor returns, and those it owns after the run of
  \<open>ops\<close> from \<open>p\<close>, whose blocks are \<open>B\<close>: every call of \<^verbatim>\<open>new_block()\<close> adds one in front.\<close>

definition ctor_blocks :: "32 word \<Rightarrow> Pool \<Rightarrow> addr list" where
  "ctor_blocks cnt p = (if 0 <s cnt then [m_blocks p] else [])"

fun blocks_after :: "nat \<Rightarrow> op list \<Rightarrow> Pool \<Rightarrow> addr list \<Rightarrow> addr list" where
  "blocks_after so [] p B = B"
| "blocks_after so (Get mal # ops) p B =
     (case get so mal p of
        Inl e \<Rightarrow> B
      | Inr (x, p') \<Rightarrow>
          blocks_after so ops p' (if grows p then mal (malloc_size so (m_cnt p)) # B else B))"
| "blocks_after so (Ret t # ops) p B =
     (case ret t p of Inl e \<Rightarrow> B | Inr p' \<Rightarrow> blocks_after so ops p' B)"

subsection \<open>Invariants of a pool\<close>

text \<open>The free list as a list of addresses: the chain of \<^verbatim>\<open>next_\<close> members from \<^verbatim>\<open>free_\<close> to
  the null pointer.\<close>

fun free_list :: "(addr \<Rightarrow> addr) \<Rightarrow> addr \<Rightarrow> addr list \<Rightarrow> bool" where
  "free_list nx x [] = (x = nullptr)"
| "free_list nx x (a # as) = (x = a \<and> a \<noteq> nullptr \<and> free_list nx (nx a) as)"

fun disjoint_blocks :: "nat \<Rightarrow> addr list \<Rightarrow> bool" where
  "disjoint_blocks n [] = True"
| "disjoint_blocks n (b # B) =
     (list_all (\<lambda>b'. b + n \<le> b' \<or> b' + n \<le> b) B \<and> disjoint_blocks n B)"

text \<open>\<open>blocks_inv so p B\<close>: the blocks \<open>B\<close> of the pool, newest first, lie in the address space
  and do not overlap; the cursor is at a slot of the newest block or at its end, the boundary
  at its end; \<^verbatim>\<open>total_cnt_\<close> counts the slots of all blocks.\<close>

definition blocks_inv :: "nat \<Rightarrow> Pool \<Rightarrow> addr list \<Rightarrow> bool" where
  "blocks_inv so p B =
     (0 < so \<and> 0 <s m_cnt p \<and> block_bytes so (m_cnt p) < 2 ^ 64
      \<and> list_all (\<lambda>b. b \<noteq> nullptr \<and> b + block_bytes so (m_cnt p) \<le> 2 ^ 64) B
      \<and> disjoint_blocks (block_bytes so (m_cnt p)) B
      \<and> m_total_cnt p = of_nat (length B * unat (m_cnt p))
      \<and> (B = [] \<longrightarrow> m_curr p = nullptr \<and> m_last p = nullptr)
      \<and> (B \<noteq> [] \<longrightarrow> m_last p = slot so (hd B) (unat (m_cnt p))
            \<and> (\<exists>k\<le>unat (m_cnt p). m_curr p = slot so (hd B) k)))"

text \<open>The slots of the blocks \<open>B\<close>, and those among them that the cursor has passed.\<close>

definition all_slots :: "nat \<Rightarrow> 32 word \<Rightarrow> addr list \<Rightarrow> addr set" where
  "all_slots so cnt B = (\<Union>b\<in>set B. slot so b ` {..<unat cnt})"

definition issued :: "nat \<Rightarrow> Pool \<Rightarrow> addr list \<Rightarrow> addr set" where
  "issued so p B =
     (if B = [] then {}
      else {x \<in> slot so (hd B) ` {..<unat (m_cnt p)}. x < m_curr p}
             \<union> all_slots so (m_cnt p) (tl B))"

text \<open>\<open>slots_inv so p F L B\<close>: \<open>F\<close> is the free list, \<open>L\<close> the slots the caller holds; no slot
  is twice in \<open>F\<close> and \<open>L\<close> together, and all are slots that the cursor has passed.\<close>

definition slots_inv :: "nat \<Rightarrow> Pool \<Rightarrow> addr list \<Rightarrow> addr list \<Rightarrow> addr list \<Rightarrow> bool" where
  "slots_inv so p F L B =
     (free_list (Obj_next p) (m_free p) F \<and> distinct (F @ L) \<and> set (F @ L) \<subseteq> issued so p B)"

text \<open>\<open>links_inv p W\<close>: \<^verbatim>\<open>free_\<close> is null or in \<open>W\<close>, and so is the \<^verbatim>\<open>next_\<close> member of every slot
  in \<open>W\<close>. It holds of the set \<open>W\<close> of the slots passed to \<^verbatim>\<open>ret()\<close>, whether or not a slot was
  released twice.\<close>

definition links_inv :: "Pool \<Rightarrow> addr set \<Rightarrow> bool" where
  "links_inv p W =
     ((m_free p = nullptr \<or> m_free p \<in> W)
      \<and> (\<forall>x\<in>W. Obj_next p x = nullptr \<or> Obj_next p x \<in> W))"

subsection \<open>Concrete values\<close>

text \<open>Raw storage in which every pointer-sized cell holds 0, and the pool constructed in it
  after one block was obtained at address 4096 for objects of 16 bytes.\<close>

definition raw_storage :: Pool where
  "raw_storage = \<lparr>m_curr = 0, m_last = 0, m_free = 0, m_blocks = 0, m_cnt = 0,
     m_total_cnt = 0, m_use_cnt = 0, Obj_next = (\<lambda>x. 0), Block_next = (\<lambda>x. 0)\<rparr>"

text \<open>A channel without observer that buffers pool 100 of type 1, and a channel with the
  observer at address 2000 that still buffers pools 100 of type 1 and 200 of type 2.\<close>

definition quiet_channel :: Channel where
  "quiet_channel = \<lparr>ch_pools = [(1, [100])], ch_mon = 0\<rparr>"

definition observed_channel :: Channel where
  "observed_channel = \<lparr>ch_pools = [(1, [100]), (2, [200])], ch_mon = 2000\<rparr>"

definition grown_pool :: Pool where
  "grown_pool = \<lparr>m_curr = 4120, m_last = 6152, m_free = 0, m_blocks = 4096, m_cnt = 128,
     m_total_cnt = 128, m_use_cnt = 1, Obj_next = (\<lambda>x. 0),
     Block_next = (\<lambda>x. 0)(4096 := 0)\<rparr>"

text \<open>The process after a pool for type 1 was constructed at address 100 with hint 0 while no
  observer was attached; and a process whose monitor (at address 2000) tracks the pools at
  addresses 100 and 300, both of type 1.\<close>

definition buffered_world :: World where
  "buffered_world = \<lparr>w_channel = quiet_channel, w_monitor = Monitor_init,
     w_pools = (\<lambda>x. None)(100 \<mapsto> Pool_init raw_storage)\<rparr>"

definition observed_world :: World where
  "observed_world = \<lparr>w_channel = \<lparr>ch_pools = [], ch_mon = 2000\<rparr>,
     w_monitor = \<lparr>mon_pools = [(1, [100, 300])]\<rparr>,
     w_pools = (\<lambda>x. None)(100 \<mapsto> grown_pool, 300 \<mapsto> Pool_init raw_storage)\<rparr>"

text \<open>The two counters of a pool that \<^verbatim>\<open>total_cnt()\<close> and \<^verbatim>\<open>use_cnt()\<close> return.\<close>

definition counters :: "Pool \<Rightarrow> 64 word \<times> 64 word" where
  "counters p = (fst (total_cnt p), fst (use_cnt p))"

text \<open>
  A \<^verbatim>\<open>malloc\<close> that returns address 4096 and one that returns 8192; the pool constructed
  with hint 2 for objects of 16 bytes when \<^verbatim>\<open>malloc\<close> returns 4096; and a run on it.
\<close>

definition first_block :: "nat \<Rightarrow> addr" where
  "first_block n = 4096"

definition second_block :: "nat \<Rightarrow> addr" where
  "second_block n = 8192"

definition hinted_pool :: Pool where
  "hinted_pool = \<lparr>m_curr = 4104, m_last = 4136, m_free = 0, m_blocks = 4096, m_cnt = 2,
     m_total_cnt = 2, m_use_cnt = 0, Obj_next = (\<lambda>x. 0),
     Block_next = (\<lambda>x. 0)(4096 := 0)\<rparr>"

definition example_prefix :: "op list" where
  "example_prefix = [Get second_block, Get second_block]"

definition example_suffix :: "op list" where
  "example_suffix = [Ret 4104, Get second_block, Get second_block]"

definition example_ops :: "op list" where
  "example_ops = example_prefix @ example_suffix"

section \<open>Properties\<close>

subsection \<open>Conversions of the slot count\<close>

lemma sint_pos:
  assumes "0 <s (c::32 word)" shows "sint c = int (unat c)"
proof -
  have pos: "0 < sint c" using assms by (simp add: word_sless_alt)
  have lt: "sint c < 2 ^ 31" using sint_less [of c] by simp
  have "uint c = take_bit 32 (sint c)" using uint_sint [of c] by simp
  also have "\<dots> = sint c" using pos lt by (simp add: take_bit_int_eq_self)
  finally show ?thesis by simp
qed

lemma unat_ucast_32_64: "unat (ucast (c::32 word) :: 64 word) = unat c"
proof -
  have "unat c < 2 ^ 32" using unsigned_less [of c, where 'a=nat] by simp
  then have "unat c < 2 ^ 64" by simp
  then show ?thesis by (simp add: unsigned_ucast_eq take_bit_nat_eq_self)
qed

lemma scast_pos:
  assumes "0 <s (c::32 word)" shows "(scast c :: 64 word) = ucast c"
proof -
  have "sint c = uint c" using sint_pos [OF assms] by simp
  then have "(word_of_int (sint c) :: 64 word) = word_of_int (uint c)" by (rule arg_cong)
  then show ?thesis by (simp only: scast_eq ucast_eq)
qed

lemma unat_pos:
  assumes "0 <s (c::32 word)" shows "0 < unat c"
proof -
  have "0 < sint c" using assms by (simp add: word_sless_alt)
  then show ?thesis using sint_pos [OF assms] by linarith
qed

subsection \<open>One call of get\<close>

lemma get_free:
  "m_free p \<noteq> nullptr \<Longrightarrow>
   get so mal p = Inr (m_free p, p\<lparr>m_use_cnt := m_use_cnt p + 1, m_free := Obj_next p (m_free p)\<rparr>)"
  by (simp add: get_def Let_def)

lemma get_bump:
  "m_free p = nullptr \<Longrightarrow> m_curr p < m_last p \<Longrightarrow>
   get so mal p = Inr (m_curr p, p\<lparr>m_use_cnt := m_use_cnt p + 1, m_curr := m_curr p + so\<rparr>)"
  by (simp add: get_def Let_def)

lemma get_grow:
  "m_free p = nullptr \<Longrightarrow> m_last p \<le> m_curr p \<Longrightarrow>
   mal (malloc_size so (m_cnt p)) = b \<Longrightarrow> b \<noteq> nullptr \<Longrightarrow>
   get so mal p = Inr (b + sizeof_Block, p\<lparr>m_use_cnt := m_use_cnt p + 1,
      Block_next := (Block_next p)(b := m_blocks p), m_blocks := b,
      m_last := nat (int (b + sizeof_Block) + sint (m_cnt p) * int so),
      m_total_cnt := m_total_cnt p + scast (m_cnt p),
      m_curr := b + sizeof_Block + so\<rparr>)"
  by (simp add: get_def Let_def new_block_def)

lemma get_grow_null:
  "m_free p = nullptr \<Longrightarrow> m_last p \<le> m_curr p \<Longrightarrow>
   mal (malloc_size so (m_cnt p)) = nullptr \<Longrightarrow> get so mal p = Inl NullDeref"
  by (simp add: get_def Let_def new_block_def)

lemma malloc_size_fits:
  assumes "0 <s c" and "sizeof_Block + so * unat c < 2 ^ 64"
  shows "malloc_size so c = sizeof_Block + so * unat c"
proof -
  have "unat (scast c :: 64 word) = unat c"
    using assms(1) by (simp add: scast_pos unat_ucast_32_64)
  moreover have "so * unat c < 2 ^ 64" using assms(2) by simp
  ultimately show ?thesis using assms(2) by (simp add: malloc_size_def)
qed

text \<open>
  C1. A call of \<^verbatim>\<open>get()\<close> pops the head of a non-empty free list and returns it. With an empty
  free list and the cursor before the boundary it returns the slot at the cursor and moves the
  cursor one slot on. With an empty free list and the cursor at or past the boundary (both are
  null before the first block) it obtains a block for the configured number of slots, links
  it in front of the block list, returns the first slot of the block, leaves the cursor at
  the second slot and the boundary at the end of the block, and adds the number of slots to
  \<^verbatim>\<open>total_cnt_\<close>. The configured number of slots is 128 unless the constructor changed it.
\<close>

theorem get_spec:
  "(m_free p \<noteq> nullptr \<longrightarrow>
      get so mal p = Inr (m_free p,
        p\<lparr>m_use_cnt := m_use_cnt p + 1, m_free := Obj_next p (m_free p)\<rparr>))
   \<and> (m_free p = nullptr \<and> m_curr p < m_last p \<longrightarrow>
      get so mal p = Inr (m_curr p,
        p\<lparr>m_use_cnt := m_use_cnt p + 1, m_curr := m_curr p + so\<rparr>))
   \<and> (m_free p = nullptr \<and> m_last p \<le> m_curr p \<and> 0 <s m_cnt p
        \<and> sizeof_Block + so * unat (m_cnt p) < 2 ^ 64
        \<and> mal (sizeof_Block + so * unat (m_cnt p)) = b \<and> b \<noteq> nullptr \<longrightarrow>
      get so mal p = Inr (b + sizeof_Block,
        p\<lparr>m_use_cnt := m_use_cnt p + 1,
          Block_next := (Block_next p)(b := m_blocks p), m_blocks := b,
          m_curr := b + sizeof_Block + so,
          m_last := b + sizeof_Block + unat (m_cnt p) * so,
          m_total_cnt := m_total_cnt p + ucast (m_cnt p)\<rparr>))
   \<and> m_cnt (Pool_init raw) = 128 \<and> m_free (Pool_init raw) = nullptr
   \<and> m_last (Pool_init raw) \<le> m_curr (Pool_init raw)"
proof (intro conjI impI)
  show "m_free p \<noteq> nullptr \<Longrightarrow> get so mal p = Inr (m_free p,
        p\<lparr>m_use_cnt := m_use_cnt p + 1, m_free := Obj_next p (m_free p)\<rparr>)"
    by (rule get_free)
next
  assume "m_free p = nullptr \<and> m_curr p < m_last p"
  then show "get so mal p = Inr (m_curr p,
        p\<lparr>m_use_cnt := m_use_cnt p + 1, m_curr := m_curr p + so\<rparr>)"
    by (simp add: get_bump)
next
  assume a: "m_free p = nullptr \<and> m_last p \<le> m_curr p \<and> 0 <s m_cnt p
        \<and> sizeof_Block + so * unat (m_cnt p) < 2 ^ 64
        \<and> mal (sizeof_Block + so * unat (m_cnt p)) = b \<and> b \<noteq> nullptr"
  then have sz: "malloc_size so (m_cnt p) = sizeof_Block + so * unat (m_cnt p)"
    by (simp add: malloc_size_fits)
  have l: "nat (int (b + sizeof_Block) + sint (m_cnt p) * int so)
            = b + sizeof_Block + unat (m_cnt p) * so"
  proof -
    have "int (b + sizeof_Block) + sint (m_cnt p) * int so
            = int (b + sizeof_Block + unat (m_cnt p) * so)"
      using a by (simp add: sint_pos)
    then show ?thesis by (simp only: nat_int)
  qed
  have "get so mal p = Inr (b + sizeof_Block, p\<lparr>m_use_cnt := m_use_cnt p + 1,
      Block_next := (Block_next p)(b := m_blocks p), m_blocks := b,
      m_last := nat (int (b + sizeof_Block) + sint (m_cnt p) * int so),
      m_total_cnt := m_total_cnt p + scast (m_cnt p),
      m_curr := b + sizeof_Block + so\<rparr>)"
    using a sz by (intro get_grow) simp_all
  then show "get so mal p = Inr (b + sizeof_Block,
        p\<lparr>m_use_cnt := m_use_cnt p + 1,
          Block_next := (Block_next p)(b := m_blocks p), m_blocks := b,
          m_curr := b + sizeof_Block + so,
          m_last := b + sizeof_Block + unat (m_cnt p) * so,
          m_total_cnt := m_total_cnt p + ucast (m_cnt p)\<rparr>)"
    unfolding l using a by (simp add: scast_pos)
qed (simp_all add: Pool_init_def)

theorem get_spec_witness:
  "get 16 (\<lambda>n. if n = 2056 then 4096 else 0) (Pool_init raw_storage) = Inr (4104, grown_pool)
   \<and> get 16 (\<lambda>n. 0) grown_pool = Inr (4120, grown_pool\<lparr>m_use_cnt := 2, m_curr := 4136\<rparr>)
   \<and> get 16 (\<lambda>n. 0) (grown_pool\<lparr>m_free := 4104\<rparr>)
        = Inr (4104, grown_pool\<lparr>m_use_cnt := 2, m_free := 0\<rparr>)"
  using get_spec [of "Pool_init raw_storage" 16 "\<lambda>n. if n = 2056 then 4096 else 0" 4096 raw_storage]
    get_spec [of grown_pool 16 "\<lambda>n. 0" 0 raw_storage]
    get_spec [of "grown_pool\<lparr>m_free := 4104\<rparr>" 16 "\<lambda>n. 0" 0 raw_storage]
  by (simp add: Pool_init_def raw_storage_def grown_pool_def nullptr_def sizeof_Block_def
      word_sless_alt)

subsection \<open>Runs\<close>

lemma run_append:
  "run so (xs @ ys) p =
     (case run so xs p of
        Inl e \<Rightarrow> Inl e
      | Inr (r, p') \<Rightarrow>
          (case run so ys p' of Inl e \<Rightarrow> Inl e | Inr (r', p'') \<Rightarrow> Inr (r @ r', p'')))"
proof (induction xs arbitrary: p)
  case Nil
  show ?case by (simp split: sum.splits)
next
  case (Cons x xs)
  show ?case
  proof (cases x)
    case (Get mal)
    then show ?thesis using Cons.IH by (simp split: sum.splits prod.splits)
  next
    case (Ret t)
    then show ?thesis using Cons.IH by (simp split: sum.splits prod.splits)
  qed
qed

lemma get_use_cnt: "get so mal p = Inr (y, q) \<Longrightarrow> m_use_cnt q = m_use_cnt p + 1"
  by (auto simp: get_def Let_def new_block_def split: if_splits sum.splits)

lemma ret_use_cnt: "ret t p = Inr q \<Longrightarrow> m_use_cnt q = m_use_cnt p - 1"
  by (auto simp: ret_def Let_def split: if_splits)

lemma run_use_cnt:
  "run so ops p = Inr (xs, p') \<Longrightarrow>
     m_use_cnt p' = m_use_cnt p + of_nat (gets ops) - of_nat (rets ops)"
proof (induction ops arbitrary: p xs)
  case Nil
  then show ?case by simp
next
  case (Cons x ops)
  show ?case
  proof (cases x)
    case (Get mal)
    with Cons.prems obtain y q ys where g: "get so mal p = Inr (y, q)"
      and r: "run so ops q = Inr (ys, p')"
      by (auto split: sum.splits prod.splits)
    from Cons.IH [OF r] get_use_cnt [OF g] Get show ?thesis by simp
  next
    case (Ret t)
    with Cons.prems obtain q where g: "ret t p = Inr q"
      and r: "run so ops q = Inr (xs, p')"
      by (auto split: sum.splits prod.splits)
    from Cons.IH [OF r] ret_use_cnt [OF g] Ret show ?thesis by simp
  qed
qed

lemma uint_diff_of_nat:
  "uint (of_nat n - of_nat m :: 64 word) = (int n - int m) mod 2 ^ 64"
proof -
  have "(of_nat n - of_nat m :: 64 word) = word_of_int (int n - int m)" by simp
  then show ?thesis by (simp only: uint_word_of_int) simp
qed

lemma rets_then_gets:
  "distinct ts \<Longrightarrow> nullptr \<notin> set ts \<Longrightarrow> length mals = length ts \<Longrightarrow>
   \<exists>p'. run so (map Ret ts @ map Get mals) p = Inr (rev ts, p')
        \<and> p' = p\<lparr>Obj_next := Obj_next p'\<rparr>
        \<and> (\<forall>x. x \<notin> set ts \<longrightarrow> Obj_next p' x = Obj_next p x)"
proof (induction ts arbitrary: p mals)
  case Nil
  then show ?case by simp
next
  case (Cons t ts)
  from Cons.prems obtain ms m where mals: "mals = ms @ [m]" and len: "length ms = length ts"
    by (cases mals rule: rev_cases) auto
  define p1 where "p1 = p\<lparr>m_use_cnt := m_use_cnt p - 1,
    Obj_next := (Obj_next p)(t := m_free p), m_free := t\<rparr>"
  have t0: "t \<noteq> nullptr" and tn: "t \<notin> set ts" and d: "distinct ts" and n: "nullptr \<notin> set ts"
    using Cons.prems by auto
  have r1: "ret t p = Inr p1" using t0 by (simp add: ret_def Let_def p1_def)
  from Cons.IH [OF d n len, of p1] obtain p2 where
    run2: "run so (map Ret ts @ map Get ms) p1 = Inr (rev ts, p2)"
    and eq2: "p2 = p1\<lparr>Obj_next := Obj_next p2\<rparr>"
    and fr2: "\<forall>x. x \<notin> set ts \<longrightarrow> Obj_next p2 x = Obj_next p1 x" by blast
  have f2: "m_free p2 = t" by (subst eq2) (simp add: p1_def)
  have nx: "Obj_next p2 t = m_free p" using fr2 tn by (simp add: p1_def)
  define p3 where "p3 = p2\<lparr>m_use_cnt := m_use_cnt p2 + 1, m_free := m_free p\<rparr>"
  have g3: "get so m p2 = Inr (t, p3)"
    using f2 t0 nx by (simp add: get_def Let_def p3_def)
  have "run so (map Ret (t # ts) @ map Get mals) p
          = run so ((map Ret ts @ map Get ms) @ [Get m]) p1"
    using r1 mals by simp
  also have "\<dots> = Inr (rev ts @ [t], p3)"
    by (subst run_append) (simp add: run2 g3)
  finally have A: "run so (map Ret (t # ts) @ map Get mals) p = Inr (rev (t # ts), p3)" by simp
  define N where "N = Obj_next p2"
  have eq2': "p2 = p1\<lparr>Obj_next := N\<rparr>" using eq2 by (simp add: N_def)
  have B: "p3 = p\<lparr>Obj_next := Obj_next p3\<rparr>"
    by (simp add: p3_def eq2' p1_def)
  have C: "\<forall>x. x \<notin> set (t # ts) \<longrightarrow> Obj_next p3 x = Obj_next p x"
    using fr2 by (simp add: p3_def p1_def)
  from A B C show ?case by blast
qed

text \<open>
  C6. \<^verbatim>\<open>ret(t)\<close> immediately followed by \<^verbatim>\<open>get()\<close> returns \<open>t\<close> again, whatever the free list
  held before, and leaves every member of the pool as it was before the two calls (no block
  is obtained); only the \<^verbatim>\<open>next_\<close> member of the slot has been written. More generally,
  releasing the different slots \<open>ts\<close> one after the other and then calling \<^verbatim>\<open>get()\<close> as many
  times returns the slots in reverse order of release, again with every member of the pool
  unchanged and \<^verbatim>\<open>next_\<close> written in the released slots only.
\<close>

theorem lifo_reuse:
  "(t \<noteq> nullptr \<longrightarrow>
      (\<exists>p1. ret t p = Inr p1
         \<and> get so mal p1 = Inr (t, p\<lparr>Obj_next := (Obj_next p)(t := m_free p)\<rparr>)))
   \<and> (distinct ts \<and> nullptr \<notin> set ts \<and> length mals = length ts \<longrightarrow>
      (\<exists>p'. run so (map Ret ts @ map Get mals) p = Inr (rev ts, p')
         \<and> p' = p\<lparr>Obj_next := Obj_next p'\<rparr>
         \<and> (\<forall>x. x \<notin> set ts \<longrightarrow> Obj_next p' x = Obj_next p x)))"
proof (intro conjI impI)
  assume "t \<noteq> nullptr"
  then show "\<exists>p1. ret t p = Inr p1
         \<and> get so mal p1 = Inr (t, p\<lparr>Obj_next := (Obj_next p)(t := m_free p)\<rparr>)"
    by (simp add: ret_def get_def Let_def)
next
  assume "distinct ts \<and> nullptr \<notin> set ts \<and> length mals = length ts"
  then show "\<exists>p'. run so (map Ret ts @ map Get mals) p = Inr (rev ts, p')
         \<and> p' = p\<lparr>Obj_next := Obj_next p'\<rparr>
         \<and> (\<forall>x. x \<notin> set ts \<longrightarrow> Obj_next p' x = Obj_next p x)"
    using rets_then_gets [of ts mals so p] by simp
qed

theorem lifo_reuse_witness:
  "(4104::nat) \<noteq> nullptr
   \<and> (\<exists>p1. ret 4104 grown_pool = Inr p1 \<and> fst (projr (get 16 (\<lambda>n. 0) p1)) = 4104)
   \<and> distinct [4104, 4120, 4136::nat] \<and> nullptr \<notin> set [4104, 4120, 4136]
   \<and> (\<exists>p'. run 16 (map Ret [4104, 4120, 4136] @ map Get [\<lambda>n. 0, \<lambda>n. 0, \<lambda>n. 0]) grown_pool
          = Inr ([4136, 4120, 4104], p'))"
  using lifo_reuse [of 4104 grown_pool 16 "\<lambda>n. 0" "[4104, 4120, 4136]" "[\<lambda>n. 0, \<lambda>n. 0, \<lambda>n. 0]"]
  by (auto simp: nullptr_def)

text \<open>
  C10. \<^verbatim>\<open>use_cnt_\<close> is an unsigned 64-bit counter: on a pool whose counter is 0 (a new pool),
  a run of \<open>N\<close> calls of \<^verbatim>\<open>get()\<close> and \<open>M\<close> calls of \<^verbatim>\<open>ret()\<close> in any order that returns
  leaves \<^verbatim>\<open>use_cnt()\<close> at \<open>(N - M) mod 2^64\<close>, also when \<open>M\<close> exceeds \<open>N\<close>; a single \<^verbatim>\<open>ret()\<close> on
  such a pool leaves it at \<open>2^64 - 1\<close>.
\<close>

theorem use_cnt_wraps:
  "(m_use_cnt p = 0 \<and> run so ops p = Inr (xs, p') \<longrightarrow>
      uint (fst (use_cnt p')) = (int (gets ops) - int (rets ops)) mod 2 ^ 64)
   \<and> (m_use_cnt p = 0 \<and> t \<noteq> nullptr \<longrightarrow>
      (\<exists>q. ret t p = Inr q \<and> fst (use_cnt q) = - 1
         \<and> unat (fst (use_cnt q)) = 2 ^ 64 - 1))"
proof (intro conjI impI)
  assume a: "m_use_cnt p = 0 \<and> run so ops p = Inr (xs, p')"
  then have "m_use_cnt p' = of_nat (gets ops) - of_nat (rets ops)"
    using run_use_cnt [of so ops p xs p'] by simp
  then show "uint (fst (use_cnt p')) = (int (gets ops) - int (rets ops)) mod 2 ^ 64"
    by (simp only: use_cnt_def fst_conv uint_diff_of_nat)
next
  assume "m_use_cnt p = 0 \<and> t \<noteq> nullptr"
  then show "\<exists>q. ret t p = Inr q \<and> fst (use_cnt q) = - 1
         \<and> unat (fst (use_cnt q)) = 2 ^ 64 - 1"
    by (simp add: ret_def Let_def use_cnt_def unsigned_minus_1_eq_mask mask_eq_exp_minus_1)
qed

theorem use_cnt_wraps_witness:
  "m_use_cnt (Pool_init raw_storage) = 0 \<and> (4104::nat) \<noteq> nullptr
   \<and> (\<exists>p'. run 16 [Ret 4104, Ret 4120, Get (\<lambda>n. 0)] (Pool_init raw_storage) = Inr ([4120], p')
         \<and> uint (fst (use_cnt p')) = 18446744073709551615)
   \<and> (\<exists>q. ret 4104 (Pool_init raw_storage) = Inr q
         \<and> unat (fst (use_cnt q)) = 18446744073709551615)"
proof -
  let ?p = "Pool_init raw_storage"
  obtain p' where r: "run 16 [Ret 4104, Ret 4120, Get (\<lambda>n. 0)] ?p = Inr ([4120], p')"
    by (simp add: ret_def get_def Let_def nullptr_def Pool_init_def raw_storage_def)
  have z: "m_use_cnt ?p = 0" by (simp add: Pool_init_def)
  have "uint (fst (use_cnt p')) = 18446744073709551615"
    using use_cnt_wraps [of ?p 16 "[Ret 4104, Ret 4120, Get (\<lambda>n. 0)]" "[4120]" p' 4104] z r
    by simp
  moreover have "\<exists>q. ret 4104 ?p = Inr q \<and> unat (fst (use_cnt q)) = 18446744073709551615"
    using use_cnt_wraps [of ?p 16 "[]" "[]" ?p 4104] z by (auto simp: nullptr_def)
  ultimately show ?thesis using z r by (auto simp: nullptr_def)
qed

subsection \<open>The registry\<close>

lemma map_of_at_key:
  "map_of (at_key f t m) t' =
     (if t' = t then Some (f (case map_of m t of None \<Rightarrow> [] | Some s \<Rightarrow> s)) else map_of m t')"
  by (induction m) auto

lemma pool_set_insert:
  "pool_set (at_key (set_insert p) t m) t' =
     (if t' = t then insert p (pool_set m t') else pool_set m t')"
  by (auto simp: pool_set_def map_of_at_key set_insert_def split: option.splits)

lemma pool_set_erase:
  "pool_set (at_key (set_erase p) t m) t' =
     (if t' = t then pool_set m t' - {p} else pool_set m t')"
  by (auto simp: pool_set_def map_of_at_key set_erase_def split: option.splits)

lemma fst_at_key: "fst ` set (at_key f t m) = insert t (fst ` set m)"
  by (induction f t m rule: at_key.induct) auto

lemma pool_set_absent: "k \<notin> fst ` set m \<Longrightarrow> pool_set m k = {}"
proof -
  assume "k \<notin> fst ` set m"
  then have "map_of m k = None" by (simp add: map_of_eq_None_iff)
  then show ?thesis by (simp add: pool_set_def)
qed

lemma pool_set_Cons:
  "pool_set ((k, s) # m) t = (if t = k then set s else pool_set m t)"
  by (simp add: pool_set_def)

lemma distinct_at_key: "distinct (map fst m) \<Longrightarrow> distinct (map fst (at_key f t m))"
proof (induction m)
  case Nil
  show ?case by simp
next
  case (Cons e m)
  obtain k s where e: "e = (k, s)" by (cases e)
  show ?case using Cons fst_at_key [of f t m] by (auto simp: e)
qed

lemma list_all_at_key:
  "list_all P m \<Longrightarrow> (\<And>k s. P (k, s) \<Longrightarrow> P (k, f s)) \<Longrightarrow> P (t, f []) \<Longrightarrow> list_all P (at_key f t m)"
  by (induction m) auto

lemma wf_insert: "wf_Pools m \<Longrightarrow> wf_Pools (at_key (set_insert p) t m)"
  unfolding wf_Pools_def
  by (auto intro!: distinct_at_key list_all_at_key simp: set_insert_def)

lemma wf_erase: "wf_Pools m \<Longrightarrow> wf_Pools (at_key (set_erase p) t m)"
  unfolding wf_Pools_def
  by (auto intro!: distinct_at_key list_all_at_key simp: set_erase_def distinct_removeAll)

lemma Channel_wf:
  assumes "wf_Pools (ch_pools c)"
  shows "wf_Pools (ch_pools (snd (Channel_created t p c)))"
    and "wf_Pools (ch_pools (snd (Channel_deleted t p c)))"
    and "wf_Pools (ch_pools (snd (Channel_set mon c)))"
    and "wf_Pools (ch_pools Channel_init)"
proof -
  show "wf_Pools (ch_pools (snd (Channel_created t p c)))"
    using assms by (simp add: Channel_created_def wf_insert)
  show "wf_Pools (ch_pools (snd (Channel_deleted t p c)))"
    using assms by (simp add: Channel_deleted_def wf_erase)
  show "wf_Pools (ch_pools (snd (Channel_set mon c)))"
    using assms by (simp add: Channel_set_def Let_def)
  show "wf_Pools (ch_pools Channel_init)"
    by (simp add: Channel_init_def wf_Pools_def)
qed

lemma set_replay:
  "distinct (map fst m) \<Longrightarrow> set (replay m) = {Created t q | t q. q \<in> pool_set m t}"
proof (induction m)
  case Nil
  show ?case by (simp add: replay_def pool_set_def)
next
  case (Cons e m)
  obtain k s where e: "e = (k, s)" by (cases e)
  have k: "pool_set m k = {}" using Cons.prems by (intro pool_set_absent) (simp add: e)
  have IH: "set (replay m) = {Created t q | t q. q \<in> pool_set m t}"
    using Cons by simp
  have "set (replay (e # m)) = Created k ` set s \<union> set (replay m)"
    by (simp add: replay_def e)
  also have "\<dots> = {Created t q | t q. q \<in> pool_set (e # m) t}"
    using k unfolding IH e pool_set_Cons by (auto split: if_splits)
  finally show ?case .
qed

lemma distinct_replay: "wf_Pools m \<Longrightarrow> distinct (replay m)"
proof (induction m)
  case Nil
  show ?case by (simp add: replay_def)
next
  case (Cons e m)
  obtain k s where e: "e = (k, s)" by (cases e)
  have wf: "wf_Pools m" and ds: "distinct s" and k: "k \<notin> fst ` set m"
    using Cons.prems by (auto simp: wf_Pools_def e)
  have d1: "distinct (map (Created k) s)" using ds by (simp add: distinct_map inj_on_def)
  have "set (replay m) = {Created t q | t q. q \<in> pool_set m t}"
    using wf by (intro set_replay) (simp add: wf_Pools_def)
  moreover have "pool_set m k = {}" using k by (rule pool_set_absent)
  ultimately have d2: "set (map (Created k) s) \<inter> set (replay m) = {}" by auto
  have "replay (e # m) = map (Created k) s @ replay m" by (simp add: replay_def e)
  then show ?case using d1 d2 Cons.IH [OF wf] by simp
qed

lemma pass_all_replay: "ch_mon c \<noteq> nullptr \<Longrightarrow> pass_all c = replay (ch_pools c)"
  by (cases "ch_pools c = []") (simp_all add: pass_all_def replay_def)

lemma created_unobserved:
  "ch_mon c = nullptr \<Longrightarrow>
   \<exists>c'. Channel_created t p c = ([], c') \<and> ch_mon c' = nullptr
     \<and> (\<forall>t'. pool_set (ch_pools c') t' =
            (if t' = t then insert p (pool_set (ch_pools c) t') else pool_set (ch_pools c) t'))"
  by (simp add: Channel_created_def pool_set_insert)

lemma deleted_unobserved:
  "ch_mon c = nullptr \<Longrightarrow>
   \<exists>c'. Channel_deleted t p c = ([], c') \<and> ch_mon c' = nullptr
     \<and> (\<forall>t'. pool_set (ch_pools c') t' =
            (if t' = t then pool_set (ch_pools c) t' - {p} else pool_set (ch_pools c) t'))"
  by (simp add: Channel_deleted_def pool_set_erase)

lemma created_observed:
  "ch_mon c \<noteq> nullptr \<Longrightarrow> wf_Pools (ch_pools c) \<Longrightarrow>
   \<exists>burst. Channel_created t p c = (Created t p # burst, c) \<and> distinct burst
     \<and> set burst = {Created t' q | t' q. q \<in> pool_set (ch_pools c) t'}"
  by (simp add: Channel_created_def pass_all_replay distinct_replay set_replay wf_Pools_def)

lemma deleted_observed:
  "ch_mon c \<noteq> nullptr \<Longrightarrow> wf_Pools (ch_pools c) \<Longrightarrow>
   \<exists>burst. Channel_deleted t p c = (Deleted t p # burst, c) \<and> distinct burst
     \<and> set burst = {Created t' q | t' q. q \<in> pool_set (ch_pools c) t'}"
  by (simp add: Channel_deleted_def pass_all_replay distinct_replay set_replay wf_Pools_def)

lemma registrations_unobserved:
  "ch_mon c = nullptr \<Longrightarrow> wf_Pools (ch_pools c) \<Longrightarrow>
   (\<forall>t p. p \<in> pool_set (ch_pools c) t \<longleftrightarrow> (t, p) \<in> S) \<Longrightarrow>
   \<exists>c'. registrations es c = ([], c') \<and> ch_mon c' = nullptr \<and> wf_Pools (ch_pools c')
     \<and> (\<forall>t p. p \<in> pool_set (ch_pools c') t \<longleftrightarrow> (t, p) \<in> live_pools es S)"
proof (induction es arbitrary: c S)
  case Nil
  then show ?case by simp
next
  case (Cons e es)
  show ?case
  proof (cases e)
    case (Construct t pool)
    define c1 where "c1 = c\<lparr>ch_pools := at_key (set_insert pool) t (ch_pools c)\<rparr>"
    have s: "Channel_created t pool c = ([], c1)"
      using Cons.prems(1) by (simp add: Channel_created_def c1_def)
    have m: "ch_mon c1 = nullptr" using Cons.prems(1) by (simp add: c1_def)
    have w: "wf_Pools (ch_pools c1)" using Cons.prems(2) by (simp add: c1_def wf_insert)
    have i: "\<forall>t' p. p \<in> pool_set (ch_pools c1) t' \<longleftrightarrow> (t', p) \<in> insert (t, pool) S"
      using Cons.prems(3) by (auto simp: c1_def pool_set_insert)
    from Cons.IH [OF m w i] show ?thesis by (auto simp: Construct s)
  next
    case (Destroy t pool)
    define c1 where "c1 = c\<lparr>ch_pools := at_key (set_erase pool) t (ch_pools c)\<rparr>"
    have s: "Channel_deleted t pool c = ([], c1)"
      using Cons.prems(1) by (simp add: Channel_deleted_def c1_def)
    have m: "ch_mon c1 = nullptr" using Cons.prems(1) by (simp add: c1_def)
    have w: "wf_Pools (ch_pools c1)" using Cons.prems(2) by (simp add: c1_def wf_erase)
    have i: "\<forall>t' p. p \<in> pool_set (ch_pools c1) t' \<longleftrightarrow> (t', p) \<in> S - {(t, pool)}"
      using Cons.prems(3) by (auto simp: c1_def pool_set_erase)
    from Cons.IH [OF m w i] show ?thesis by (auto simp: Destroy s)
  qed
qed

lemma attach_replays:
  assumes "mon \<noteq> nullptr"
  shows "\<exists>c burst c'. registrations es Channel_init = ([], c)
      \<and> Channel_set mon c = (burst, c')
      \<and> distinct burst
      \<and> set burst = {Created t p | t p. (t, p) \<in> live_pools es {}}
      \<and> ch_mon c' = mon \<and> ch_pools c' = ch_pools c"
proof -
  have "\<exists>c'. registrations es Channel_init = ([], c') \<and> ch_mon c' = nullptr
      \<and> wf_Pools (ch_pools c')
      \<and> (\<forall>t p. p \<in> pool_set (ch_pools c') t \<longleftrightarrow> (t, p) \<in> live_pools es {})"
    by (rule registrations_unobserved) (simp_all add: Channel_init_def wf_Pools_def pool_set_def)
  then obtain c where r: "registrations es Channel_init = ([], c)"
    and w: "wf_Pools (ch_pools c)"
    and l: "\<forall>t p. p \<in> pool_set (ch_pools c) t \<longleftrightarrow> (t, p) \<in> live_pools es {}" by blast
  have s: "Channel_set mon c = (replay (ch_pools c), c\<lparr>ch_mon := mon\<rparr>)"
    using assms by (simp add: Channel_set_def Let_def pass_all_replay)
  have d: "distinct (replay (ch_pools c))" using w by (rule distinct_replay)
  have "set (replay (ch_pools c)) = {Created t p | t p. p \<in> pool_set (ch_pools c) t}"
    using w by (intro set_replay) (simp add: wf_Pools_def)
  then have e: "set (replay (ch_pools c)) = {Created t p | t p. (t, p) \<in> live_pools es {}}"
    using l by simp
  show ?thesis using r s d e by simp
qed

text \<open>
  C2. \<^verbatim>\<open>Channel::created\<close> without observer makes no call and adds the pool to the set
  buffered under its type. With an observer it calls \<^verbatim>\<open>created\<close> for the pool and then
  \<^verbatim>\<open>created\<close> once for every buffered pool, and leaves the channel as it was: the new pool is
  not buffered. \<^verbatim>\<open>Channel::deleted\<close> without observer makes no call and removes the pool from
  the set buffered under its type; with an observer it calls \<^verbatim>\<open>deleted\<close> for the pool, then
  \<^verbatim>\<open>created\<close> once for every buffered pool, and leaves the channel as it was.
\<close>

theorem Channel_created_deleted:
  "(ch_mon c = nullptr \<longrightarrow>
      (\<exists>c'. Channel_created t p c = ([], c') \<and> ch_mon c' = nullptr
         \<and> (\<forall>t'. pool_set (ch_pools c') t' =
               (if t' = t then insert p (pool_set (ch_pools c) t')
                else pool_set (ch_pools c) t'))))
   \<and> (ch_mon c \<noteq> nullptr \<and> wf_Pools (ch_pools c) \<longrightarrow>
      (\<exists>burst. Channel_created t p c = (Created t p # burst, c) \<and> distinct burst
         \<and> set burst = {Created t' q | t' q. q \<in> pool_set (ch_pools c) t'}))
   \<and> (ch_mon c = nullptr \<longrightarrow>
      (\<exists>c'. Channel_deleted t p c = ([], c') \<and> ch_mon c' = nullptr
         \<and> (\<forall>t'. pool_set (ch_pools c') t' =
               (if t' = t then pool_set (ch_pools c) t' - {p}
                else pool_set (ch_pools c) t'))))
   \<and> (ch_mon c \<noteq> nullptr \<and> wf_Pools (ch_pools c) \<longrightarrow>
      (\<exists>burst. Channel_deleted t p c = (Deleted t p # burst, c) \<and> distinct burst
         \<and> set burst = {Created t' q | t' q. q \<in> pool_set (ch_pools c) t'}))"
  using created_unobserved [of c t p] created_observed [of c t p]
    deleted_unobserved [of c t p] deleted_observed [of c t p]
  by blast

theorem Channel_created_deleted_witness:
  "ch_mon quiet_channel = nullptr
   \<and> ch_mon observed_channel \<noteq> nullptr \<and> wf_Pools (ch_pools observed_channel)
   \<and> Channel_created 1 300 quiet_channel = ([], \<lparr>ch_pools = [(1, [100, 300])], ch_mon = 0\<rparr>)
   \<and> Channel_created 3 300 observed_channel
        = ([Created 3 300, Created 1 100, Created 2 200], observed_channel)
   \<and> Channel_deleted 1 100 quiet_channel = ([], \<lparr>ch_pools = [(1, [])], ch_mon = 0\<rparr>)
   \<and> Channel_deleted 1 100 observed_channel
        = ([Deleted 1 100, Created 1 100, Created 2 200], observed_channel)"
  using Channel_created_deleted [of quiet_channel 1 300]
    Channel_created_deleted [of observed_channel 3 300]
    Channel_created_deleted [of quiet_channel 1 100]
    Channel_created_deleted [of observed_channel 1 100]
  by (simp add: quiet_channel_def observed_channel_def nullptr_def wf_Pools_def
      Channel_created_def Channel_deleted_def pass_all_def replay_def
      set_insert_def set_erase_def)

text \<open>
  C4. Starting from the new channel, any sequence of pool constructions and destructions
  while no observer is attached makes no call on an observer; installing an observer with
  \<^verbatim>\<open>set\<close> afterwards makes exactly one call of \<^verbatim>\<open>created\<close> for every pool that is live
  (constructed and not destroyed since), no call for any other pool and no call of
  \<^verbatim>\<open>deleted\<close>, and leaves the buffered map as it is.
\<close>

theorem attach_replays_live:
  "mon \<noteq> nullptr \<longrightarrow>
     (\<exists>c burst c'. registrations es Channel_init = ([], c)
        \<and> Channel_set mon c = (burst, c')
        \<and> distinct burst
        \<and> set burst = {Created t p | t p. (t, p) \<in> live_pools es {}}
        \<and> ch_mon c' = mon \<and> ch_pools c' = ch_pools c)"
  using attach_replays [of mon es] by blast

theorem attach_replays_live_witness:
  "(2000::nat) \<noteq> nullptr
   \<and> registrations [Construct 1 100, Construct 2 200, Construct 1 300, Destroy 1 100]
        Channel_init = ([], \<lparr>ch_pools = [(1, [300]), (2, [200])], ch_mon = 0\<rparr>)
   \<and> Channel_set 2000 \<lparr>ch_pools = [(1, [300]), (2, [200])], ch_mon = 0\<rparr>
        = ([Created 1 300, Created 2 200], \<lparr>ch_pools = [(1, [300]), (2, [200])], ch_mon = 2000\<rparr>)
   \<and> set [Created 1 300, Created 2 200] = {Created t p | t p. (t, p) \<in>
        live_pools [Construct 1 100, Construct 2 200, Construct 1 300, Destroy 1 100] {}}"
proof -
  let ?es = "[Construct 1 100, Construct 2 200, Construct 1 300, Destroy 1 100]"
  let ?c = "\<lparr>ch_pools = [(1, [300]), (2, [200])], ch_mon = 0\<rparr>"
  have m: "(2000::nat) \<noteq> nullptr" by (simp add: nullptr_def)
  have r: "registrations ?es Channel_init = ([], ?c)"
    by (simp add: nullptr_def Channel_init_def Channel_created_def Channel_deleted_def
        set_insert_def set_erase_def)
  have s: "Channel_set 2000 ?c
      = ([Created 1 300, Created 2 200], \<lparr>ch_pools = [(1, [300]), (2, [200])], ch_mon = 2000\<rparr>)"
    by (simp add: nullptr_def Channel_set_def pass_all_def replay_def)
  from attach_replays_live [of 2000 ?es] m obtain c burst c' where
    a: "registrations ?es Channel_init = ([], c)" "Channel_set 2000 c = (burst, c')"
      "set burst = {Created t p | t p. (t, p) \<in> live_pools ?es {}}"
    by blast
  have "c = ?c" using a(1) r by simp
  then have "burst = [Created 1 300, Created 2 200]" using a(2) s by simp
  then have l: "set [Created 1 300, Created 2 200]
      = {Created t p | t p. (t, p) \<in> live_pools ?es {}}"
    using a(3) by simp
  show ?thesis using m r s l by blast
qed

subsection \<open>The monitor\<close>

lemma stat_poolset_frame:
  "stat_poolset ps cnt h = Inr (cnt', h') \<Longrightarrow> h' = h"
proof (induction ps arbitrary: cnt)
  case Nil
  then show ?case by simp
next
  case (Cons x ps)
  from Cons.prems obtain p where p: "h x = Some p"
    by (cases "h x") simp_all
  then have u: "h(x \<mapsto> p) = h" by (rule map_upd_triv)
  from Cons.prems p u have
    "stat_poolset ps (cnt\<lparr>c_total := c_total cnt + m_total_cnt p,
        c_use := c_use cnt + m_use_cnt p\<rparr>) h = Inr (cnt', h')"
    by (simp add: total_cnt_def use_cnt_def)
  then show ?case by (rule Cons.IH)
qed

lemma stat_types_frame:
  "stat_types m stat h = Inr (stat', h') \<Longrightarrow> h' = h"
proof (induction m arbitrary: stat)
  case Nil
  then show ?case by simp
next
  case (Cons e m)
  obtain t ps where e: "e = (t, ps)" by (cases e)
  from Cons.prems obtain cnt h1 where
    a: "stat_poolset ps Count_init h = Inr (cnt, h1)"
    and b: "stat_types m (stat(t \<mapsto> cnt\<lparr>c_pool := of_nat (length ps)\<rparr>)) h1 = Inr (stat', h')"
    by (auto simp: e split: sum.splits)
  have "h1 = h" using a by (rule stat_poolset_frame)
  with b show ?case using Cons.IH by simp
qed

lemma stat_poolset_total:
  "\<forall>x\<in>set ps. h x \<noteq> None \<Longrightarrow> \<exists>cnt'. stat_poolset ps cnt h = Inr (cnt', h)"
proof (induction ps arbitrary: cnt)
  case Nil
  show ?case by simp
next
  case (Cons x ps)
  then obtain p where p: "h x = Some p" by auto
  then have u: "h(x \<mapsto> p) = h" by (rule map_upd_triv)
  from Cons.prems have "\<forall>x\<in>set ps. h x \<noteq> None" by simp
  from Cons.IH [OF this] show ?case by (simp add: p u total_cnt_def use_cnt_def)
qed

lemma stat_types_total:
  "\<forall>e\<in>set m. \<forall>x\<in>set (snd e). h x \<noteq> None \<Longrightarrow> \<exists>stat'. stat_types m stat h = Inr (stat', h)"
proof (induction m arbitrary: stat)
  case Nil
  show ?case by simp
next
  case (Cons e m)
  obtain t ps where e: "e = (t, ps)" by (cases e)
  from Cons.prems have "\<forall>x\<in>set ps. h x \<noteq> None" by (simp add: e)
  from stat_poolset_total [OF this] obtain cnt where
    a: "stat_poolset ps Count_init h = Inr (cnt, h)" by blast
  from Cons.prems have "\<forall>e\<in>set m. \<forall>x\<in>set (snd e). h x \<noteq> None" by simp
  from Cons.IH [OF this] show ?case by (simp add: e a)
qed

lemma stat_poolset_reads:
  "\<forall>x. map_option counters (h1 x) = map_option counters (h2 x) \<Longrightarrow>
   map_sum id fst (stat_poolset ps cnt h1) = map_sum id fst (stat_poolset ps cnt h2)"
proof (induction ps arbitrary: cnt)
  case Nil
  show ?case by simp
next
  case (Cons x ps)
  from Cons.prems have x: "map_option counters (h1 x) = map_option counters (h2 x)" by blast
  show ?case
  proof (cases "h1 x")
    case None
    with x have "h2 x = None" by simp
    with None show ?thesis by simp
  next
    case (Some p)
    with x obtain q where q: "h2 x = Some q" and c: "counters p = counters q"
      by (cases "h2 x") auto
    have u1: "h1(x \<mapsto> p) = h1" using Some by (rule map_upd_triv)
    have u2: "h2(x \<mapsto> q) = h2" using q by (rule map_upd_triv)
    from c have "m_total_cnt p = m_total_cnt q" "m_use_cnt p = m_use_cnt q"
      by (simp_all add: counters_def total_cnt_def use_cnt_def)
    then show ?thesis using Cons.IH [OF Cons.prems]
      by (simp add: Some q u1 u2 total_cnt_def use_cnt_def)
  qed
qed

lemma stat_types_reads:
  "\<forall>x. map_option counters (h1 x) = map_option counters (h2 x) \<Longrightarrow>
   map_sum id fst (stat_types m stat h1) = map_sum id fst (stat_types m stat h2)"
proof (induction m arbitrary: stat)
  case Nil
  show ?case by simp
next
  case (Cons e m)
  obtain t ps where e: "e = (t, ps)" by (cases e)
  have s: "map_sum id fst (stat_poolset ps Count_init h1)
         = map_sum id fst (stat_poolset ps Count_init h2)"
    using Cons.prems by (rule stat_poolset_reads)
  show ?case
  proof (cases "stat_poolset ps Count_init h1")
    case (Inl err)
    with s obtain err' where "stat_poolset ps Count_init h2 = Inl err'" and "err' = err"
      by (cases "stat_poolset ps Count_init h2") auto
    with Inl show ?thesis by (simp add: e)
  next
    case (Inr r)
    obtain cnt h1' where r: "r = (cnt, h1')" by (cases r)
    have h1': "h1' = h1" using Inr r stat_poolset_frame by blast
    from s Inr r obtain h2' where r2: "stat_poolset ps Count_init h2 = Inr (cnt, h2')"
      by (cases "stat_poolset ps Count_init h2") auto
    have h2': "h2' = h2" using r2 stat_poolset_frame by blast
    let ?st = "stat(t \<mapsto> cnt\<lparr>c_pool := of_nat (length ps)\<rparr>)"
    have a1: "stat_types (e # m) stat h1 = stat_types m ?st h1"
      by (simp only: e stat_types.simps Inr r h1' sum.case prod.case)
    have a2: "stat_types (e # m) stat h2 = stat_types m ?st h2"
      by (simp only: e stat_types.simps r2 h2' sum.case prod.case)
    show ?thesis unfolding a1 a2 by (rule Cons.IH [OF Cons.prems])
  qed
qed

lemma Monitor_stat_frame: "Monitor_stat w = Inr (stat, w') \<Longrightarrow> w' = w"
proof -
  assume a: "Monitor_stat w = Inr (stat, w')"
  then obtain h where b: "stat_types (mon_pools (w_monitor w)) Map.empty (w_pools w) = Inr (stat, h)"
    and c: "w' = w\<lparr>w_pools := h\<rparr>"
    by (auto simp: Monitor_stat_def split: sum.splits)
  have "h = w_pools w" using b by (rule stat_types_frame)
  with c show ?thesis by simp
qed

lemma Monitor_stat_total:
  assumes "\<forall>e\<in>set (mon_pools (w_monitor w)). \<forall>x\<in>set (snd e). w_pools w x \<noteq> None"
  shows "\<exists>stat. Monitor_stat w = Inr (stat, w)"
proof -
  from stat_types_total [OF assms] obtain stat where
    "stat_types (mon_pools (w_monitor w)) Map.empty (w_pools w) = Inr (stat, w_pools w)" by blast
  then show ?thesis by (simp add: Monitor_stat_def)
qed

lemma Monitor_stat_reads:
  assumes "w_monitor w1 = w_monitor w2"
    and "\<forall>x. map_option counters (w_pools w1 x) = map_option counters (w_pools w2 x)"
  shows "map_sum id fst (Monitor_stat w1) = map_sum id fst (Monitor_stat w2)"
proof -
  let ?m = "mon_pools (w_monitor w2)"
  have s: "map_sum id fst (stat_types ?m Map.empty (w_pools w1))
      = map_sum id fst (stat_types ?m Map.empty (w_pools w2))"
    using assms(2) by (rule stat_types_reads)
  show ?thesis
  proof (cases "stat_types ?m Map.empty (w_pools w1)")
    case (Inl err)
    with s have "stat_types ?m Map.empty (w_pools w2) = Inl err"
      by (cases "stat_types ?m Map.empty (w_pools w2)") auto
    with Inl show ?thesis by (simp add: Monitor_stat_def assms(1))
  next
    case (Inr r)
    obtain st h where r: "r = (st, h)" by (cases r)
    from s Inr r obtain h' where "stat_types ?m Map.empty (w_pools w2) = Inr (st, h')"
      by (cases "stat_types ?m Map.empty (w_pools w2)") auto
    with Inr r show ?thesis by (simp add: Monitor_stat_def assms(1))
  qed
qed

lemma map_of_map_erase:
  "map_of (map_erase t m) t' = (if t' = t then None else map_of m t')"
  by (induction m) (auto simp: map_erase_def)

lemma fst_map_erase: "fst ` set (map_erase t m) = fst ` set m - {t}"
  by (auto simp: map_erase_def)

lemma set_stored:
  "set (case map_of m t of None \<Rightarrow> [] | Some s \<Rightarrow> s) = pool_set m t"
  by (cases "map_of m t") (simp_all add: pool_set_def)

lemma Monitor_deleted_cases:
  "(pool_set (mon_pools M) t - {p} = {}
      \<and> mon_pools (Monitor_deleted t p M) = map_erase t (at_key (set_erase p) t (mon_pools M)))
   \<or> (pool_set (mon_pools M) t - {p} \<noteq> {}
      \<and> mon_pools (Monitor_deleted t p M) = at_key (set_erase p) t (mon_pools M))"
proof -
  let ?s = "case map_of (mon_pools M) t of None \<Rightarrow> [] | Some s \<Rightarrow> s"
  let ?ps = "at_key (set_erase p) t (mon_pools M)"
  have m: "map_of ?ps t = Some (removeAll p ?s)" by (simp add: map_of_at_key set_erase_def)
  have "set (removeAll p ?s) = pool_set (mon_pools M) t - {p}"
    by (simp only: set_removeAll set_stored)
  then have e: "removeAll p ?s = [] \<longleftrightarrow> pool_set (mon_pools M) t - {p} = {}"
    using set_empty [of "removeAll p ?s"] by simp
  show ?thesis
  proof (cases "removeAll p ?s = []")
    case True
    then have "mon_pools (Monitor_deleted t p M) = map_erase t ?ps"
      using m by (simp add: Monitor_deleted_def Let_def)
    then show ?thesis using True e by simp
  next
    case False
    then have "mon_pools (Monitor_deleted t p M) = ?ps"
      using m by (simp add: Monitor_deleted_def Let_def)
    then show ?thesis using False e by simp
  qed
qed

lemma pool_set_map_erase:
  "pool_set (map_erase t m) t' = (if t' = t then {} else pool_set m t')"
  by (simp add: pool_set_def map_of_map_erase)

lemma Monitor_deleted_pool_set:
  "pool_set (mon_pools (Monitor_deleted t p M)) t' =
     (if t' = t then pool_set (mon_pools M) t' - {p} else pool_set (mon_pools M) t')"
  using Monitor_deleted_cases [of M t p]
  by (auto simp: pool_set_map_erase pool_set_erase)

lemma Monitor_deleted_type:
  "t \<in> fst ` set (mon_pools (Monitor_deleted t p M)) \<longleftrightarrow> pool_set (mon_pools M) t - {p} \<noteq> {}"
proof -
  let ?ps = "at_key (set_erase p) t (mon_pools M)"
  have a: "t \<notin> fst ` set (map_erase t ?ps)" by (simp only: fst_map_erase) simp
  have b: "t \<in> fst ` set ?ps" by (simp only: fst_at_key) simp
  from Monitor_deleted_cases [of M t p] show ?thesis
  proof
    assume "pool_set (mon_pools M) t - {p} = {}
      \<and> mon_pools (Monitor_deleted t p M) = map_erase t ?ps"
    then show ?thesis using a by simp
  next
    assume "pool_set (mon_pools M) t - {p} \<noteq> {}
      \<and> mon_pools (Monitor_deleted t p M) = ?ps"
    then show ?thesis using b by simp
  qed
qed

lemma destroy_unbuffered:
  assumes "ch_mon (w_channel w) \<noteq> nullptr" and "ch_pools (w_channel w) = []"
  shows "p \<notin> pool_set (mon_pools (w_monitor (Pool_dtor t p w))) t
    \<and> (pool_set (mon_pools (w_monitor w)) t \<subseteq> {p}
         \<longrightarrow> t \<notin> fst ` set (mon_pools (w_monitor (Pool_dtor t p w))))"
proof -
  have "Channel_deleted t p (w_channel w) = ([Deleted t p], w_channel w)"
    using assms by (simp add: Channel_deleted_def pass_all_def)
  then have "w_monitor (Pool_dtor t p w) = Monitor_deleted t p (w_monitor w)"
    by (simp add: Pool_dtor_def deliver_def)
  then show ?thesis
    using Monitor_deleted_pool_set [of t p "w_monitor w" t]
      Monitor_deleted_type [of t p "w_monitor w"] by auto
qed

lemma get_cnt: "get so mal p = Inr (x, p') \<Longrightarrow> m_cnt p' = m_cnt p"
  by (auto simp: get_def Let_def new_block_def split: if_splits sum.splits)

lemma ret_cnt: "ret t p = Inr p' \<Longrightarrow> m_cnt p' = m_cnt p"
  by (auto simp: ret_def Let_def split: if_splits)

lemma run_cnt: "run so ops p = Inr (xs, p') \<Longrightarrow> m_cnt p' = m_cnt p"
proof (induction ops arbitrary: p xs)
  case Nil
  then show ?case by simp
next
  case (Cons x ops)
  show ?case
  proof (cases x)
    case (Get mal)
    with Cons.prems obtain y q ys where g: "get so mal p = Inr (y, q)"
      and r: "run so ops q = Inr (ys, p')"
      by (auto split: sum.splits prod.splits)
    from Cons.IH [OF r] get_cnt [OF g] show ?thesis by simp
  next
    case (Ret t)
    with Cons.prems obtain q where g: "ret t p = Inr q"
      and r: "run so ops q = Inr (xs, p')"
      by (auto split: sum.splits prod.splits)
    from Cons.IH [OF r] ret_cnt [OF g] show ?thesis by simp
  qed
qed

lemma ctor_hint:
  assumes "0 <s cnt" and "mal (malloc_size so cnt) \<noteq> nullptr"
  shows "\<exists>w' p. Pool_ctor so mal t this cnt raw w = Inr w' \<and> w_pools w' this = Some p
     \<and> m_cnt p = cnt \<and> unat (fst (total_cnt p)) = unat cnt
     \<and> m_blocks p = mal (malloc_size so cnt) \<and> Block_next p (m_blocks p) = nullptr"
proof -
  obtain calls c where cc: "Channel_created t this (w_channel w) = (calls, c)"
    by (cases "Channel_created t this (w_channel w)")
  have "unat (0 + scast cnt :: 64 word) = unat cnt"
    using assms(1) by (simp add: scast_pos unat_ucast_32_64)
  then show ?thesis using assms
    by (simp add: Pool_ctor_def Pool_object_def new_block_def Let_def Pool_init_def cc
        total_cnt_def)
qed

lemma ctor_default:
  assumes "\<not> 0 <s cnt"
  shows "\<exists>w' p. Pool_ctor so mal t this cnt raw w = Inr w' \<and> w_pools w' this = Some p
     \<and> m_cnt p = 128 \<and> fst (total_cnt p) = 0 \<and> m_blocks p = nullptr
     \<and> m_curr p = nullptr \<and> m_last p = nullptr
     \<and> (\<forall>mal' x p'. get so mal' p = Inr (x, p') \<longrightarrow>
           fst (total_cnt p') = 128 \<and> m_blocks p' = mal' (malloc_size so 128)
           \<and> m_blocks p' \<noteq> nullptr)"
proof -
  obtain calls c where cc: "Channel_created t this (w_channel w) = (calls, c)"
    by (cases "Channel_created t this (w_channel w)")
  have g: "\<forall>mal' x p'. get so mal' (Pool_init raw) = Inr (x, p') \<longrightarrow>
           fst (total_cnt p') = 128 \<and> m_blocks p' = mal' (malloc_size so 128)
           \<and> m_blocks p' \<noteq> nullptr"
    by (auto simp: get_def Let_def new_block_def Pool_init_def total_cnt_def split: if_splits)
  let ?w = "w\<lparr>w_channel := c, w_monitor := deliver calls (w_monitor w),
    w_pools := (w_pools w)(this \<mapsto> Pool_init raw)\<rparr>"
  have r: "Pool_ctor so mal t this cnt raw w = Inr ?w"
    using assms by (simp add: Pool_ctor_def Pool_object_def cc)
  have f: "m_cnt (Pool_init raw) = 128" "fst (total_cnt (Pool_init raw)) = 0"
    "m_blocks (Pool_init raw) = nullptr" "m_curr (Pool_init raw) = nullptr"
    "m_last (Pool_init raw) = nullptr"
    by (simp_all add: Pool_init_def total_cnt_def)
  have "w_pools ?w this = Some (Pool_init raw)" by simp
  with r f g show ?thesis by blast
qed

lemma warm_up_late:
  "w_pools w this = Some p \<Longrightarrow>
     warm_up_singleton so mal t this cnt raw w = Inr w
     \<and> warm_up_tls_pool so mal t this cnt raw w = Inr w"
  by (simp add: warm_up_singleton_def warm_up_tls_pool_def get_singleton_pool_def get_tls_pool_def)

text \<open>
  C3 (fails on the code). A pool that was constructed while no observer was attached stays in
  the map buffered by the channel once the monitor is attached. When it is destroyed,
  \<^verbatim>\<open>Monitor::deleted\<close> removes it, and the replay that follows in \<^verbatim>\<open>Channel::deleted\<close> hands it
  to \<^verbatim>\<open>Monitor::created\<close> again: the destroyed pool and its type are in the monitor's map, and
  \<^verbatim>\<open>stat()\<close> calls the accessors of the destroyed pool. The scenario: pool 100 of type 1
  constructed, monitor 2000 attached, pool 100 destroyed, \<^verbatim>\<open>stat()\<close>.
\<close>

theorem destroyed_pool_reappears:
  "Pool_ctor 16 (\<lambda>n. 0) 1 100 0 raw_storage World_init = Inr buffered_world
   \<and> ch_mon (w_channel (Monitor_ctor 2000 buffered_world)) = 2000
   \<and> pool_set (mon_pools (w_monitor (Monitor_ctor 2000 buffered_world))) 1 = {100}
   \<and> w_pools (Pool_dtor 1 100 (Monitor_ctor 2000 buffered_world)) 100 = None
   \<and> mon_pools (w_monitor (Pool_dtor 1 100 (Monitor_ctor 2000 buffered_world)))
        = [(1, [100])]
   \<and> pool_set (mon_pools (w_monitor (Pool_dtor 1 100 (Monitor_ctor 2000 buffered_world)))) 1
        = {100}
   \<and> Monitor_stat (Pool_dtor 1 100 (Monitor_ctor 2000 buffered_world)) = Inl UseAfterFree"
proof -
  have a: "Pool_ctor 16 (\<lambda>n. 0) 1 100 0 raw_storage World_init = Inr buffered_world"
    by (simp add: Pool_ctor_def Pool_object_def World_init_def buffered_world_def Channel_init_def
        Channel_created_def nullptr_def quiet_channel_def set_insert_def deliver_def)
  have b: "Monitor_ctor 2000 buffered_world
      = buffered_world\<lparr>w_channel := \<lparr>ch_pools = [(1, [100])], ch_mon = 2000\<rparr>,
          w_monitor := \<lparr>mon_pools = [(1, [100])]\<rparr>\<rparr>"
    by (simp add: Monitor_ctor_def buffered_world_def quiet_channel_def Channel_set_def
        pass_all_def replay_def nullptr_def deliver_def Monitor_created_def Monitor_init_def
        set_insert_def)
  have c: "Pool_dtor 1 100 (Monitor_ctor 2000 buffered_world)
      = \<lparr>w_channel = \<lparr>ch_pools = [(1, [100])], ch_mon = 2000\<rparr>,
          w_monitor = \<lparr>mon_pools = [(1, [100])]\<rparr>, w_pools = (\<lambda>x. None)\<rparr>"
    unfolding b
    by (simp add: Pool_dtor_def buffered_world_def Channel_deleted_def pass_all_def
        replay_def nullptr_def deliver_def Monitor_created_def Monitor_deleted_def
        set_insert_def set_erase_def map_erase_def)
  have d: "Monitor_stat (Pool_dtor 1 100 (Monitor_ctor 2000 buffered_world)) = Inl UseAfterFree"
    unfolding c by (simp add: Monitor_stat_def)
  show ?thesis unfolding a d unfolding c unfolding b by (simp add: pool_set_def)
qed

text \<open>
  C9. \<^verbatim>\<open>Monitor::stat()\<close> leaves every pool object, the monitor's map and the channel as they
  are; it returns a snapshot whenever every tracked pool still exists; and the snapshot
  depends on the pools through the values of \<^verbatim>\<open>total_cnt()\<close> and \<^verbatim>\<open>use_cnt()\<close> only.
\<close>

theorem stat_read_only:
  "(Monitor_stat w = Inr (stat, w') \<longrightarrow> w' = w)
   \<and> ((\<forall>e\<in>set (mon_pools (w_monitor w)). \<forall>x\<in>set (snd e). w_pools w x \<noteq> None) \<longrightarrow>
        (\<exists>stat. Monitor_stat w = Inr (stat, w)))
   \<and> (w_monitor w = w_monitor w2
        \<and> (\<forall>x. map_option counters (w_pools w x) = map_option counters (w_pools w2 x)) \<longrightarrow>
        map_sum id fst (Monitor_stat w) = map_sum id fst (Monitor_stat w2))"
  using Monitor_stat_frame [of w stat w'] Monitor_stat_total [of w]
    Monitor_stat_reads [of w w2]
  by blast

theorem stat_read_only_witness:
  "mon_pools (w_monitor observed_world) = [(1, [100, 300])]
   \<and> w_pools observed_world 100 = Some grown_pool
   \<and> w_pools observed_world 300 = Some (Pool_init raw_storage)
   \<and> Monitor_stat observed_world
       = Inr ([1 \<mapsto> \<lparr>c_total = 128, c_use = 1, c_pool = 2\<rparr>], observed_world)
   \<and> map_sum id fst (Monitor_stat (observed_world\<lparr>w_pools :=
         (\<lambda>x. None)(100 \<mapsto> grown_pool\<lparr>m_free := 4104\<rparr>, 300 \<mapsto> Pool_init raw_storage)\<rparr>))
       = Inr [1 \<mapsto> \<lparr>c_total = 128, c_use = 1, c_pool = 2\<rparr>]"
proof -
  let ?w2 = "observed_world\<lparr>w_pools :=
     (\<lambda>x. None)(100 \<mapsto> grown_pool\<lparr>m_free := 4104\<rparr>, 300 \<mapsto> Pool_init raw_storage)\<rparr>"
  have h: "\<forall>e\<in>set (mon_pools (w_monitor observed_world)). \<forall>x\<in>set (snd e).
       w_pools observed_world x \<noteq> None"
    by (simp add: observed_world_def)
  have v: "map_sum id fst (Monitor_stat observed_world)
      = Inr [1 \<mapsto> \<lparr>c_total = 128, c_use = 1, c_pool = 2\<rparr>]"
    by (simp add: Monitor_stat_def observed_world_def total_cnt_def use_cnt_def
        grown_pool_def Pool_init_def Count_init_def)
  from stat_read_only [of observed_world _ _ ?w2] h obtain stat where
    s: "Monitor_stat observed_world = Inr (stat, observed_world)" by blast
  with v have s': "Monitor_stat observed_world
      = Inr ([1 \<mapsto> \<lparr>c_total = 128, c_use = 1, c_pool = 2\<rparr>], observed_world)" by simp
  have m: "w_monitor observed_world = w_monitor ?w2" by simp
  have c: "\<forall>x. map_option counters (w_pools observed_world x) = map_option counters (w_pools ?w2 x)"
    by (simp add: observed_world_def counters_def total_cnt_def use_cnt_def)
  from stat_read_only [of observed_world _ _ ?w2] m c
  have "map_sum id fst (Monitor_stat observed_world) = map_sum id fst (Monitor_stat ?w2)"
    by blast
  with v have r: "map_sum id fst (Monitor_stat ?w2)
      = Inr [1 \<mapsto> \<lparr>c_total = 128, c_use = 1, c_pool = 2\<rparr>]" by simp
  have g: "mon_pools (w_monitor observed_world) = [(1, [100, 300])]"
    "w_pools observed_world 100 = Some grown_pool"
    "w_pools observed_world 300 = Some (Pool_init raw_storage)"
    by (simp_all add: observed_world_def)
  from g s' r show ?thesis by blast
qed

text \<open>
  C8. Constructing a pool with a positive hint \<open>cnt\<close> sets the slot count of a block to \<open>cnt\<close>
  and obtains one block at once, so that \<^verbatim>\<open>total_cnt()\<close> is \<open>cnt\<close>. With a hint that is not
  positive the slot count stays 128 and no block is obtained: \<^verbatim>\<open>total_cnt()\<close> is 0, and the
  first \<^verbatim>\<open>get()\<close> obtains the first block. No run of \<^verbatim>\<open>get()\<close> and \<^verbatim>\<open>ret()\<close> changes the slot
  count. A warm-up after the pool behind the accessor has been constructed changes nothing;
  a warm-up before is the construction with the hint.
\<close>

theorem block_size_hint:
  "(0 <s cnt \<and> mal (malloc_size so cnt) \<noteq> nullptr \<longrightarrow>
      (\<exists>w' p. Pool_ctor so mal t this cnt raw w = Inr w' \<and> w_pools w' this = Some p
         \<and> m_cnt p = cnt \<and> unat (fst (total_cnt p)) = unat cnt
         \<and> m_blocks p = mal (malloc_size so cnt) \<and> Block_next p (m_blocks p) = nullptr))
   \<and> (\<not> 0 <s cnt \<longrightarrow>
      (\<exists>w' p. Pool_ctor so mal t this cnt raw w = Inr w' \<and> w_pools w' this = Some p
         \<and> m_cnt p = 128 \<and> fst (total_cnt p) = 0 \<and> m_blocks p = nullptr
         \<and> m_curr p = nullptr \<and> m_last p = nullptr
         \<and> (\<forall>mal' x p'. get so mal' p = Inr (x, p') \<longrightarrow>
               fst (total_cnt p') = 128 \<and> m_blocks p' = mal' (malloc_size so 128)
               \<and> m_blocks p' \<noteq> nullptr)))
   \<and> (run so ops q = Inr (xs, q') \<longrightarrow> m_cnt q' = m_cnt q)
   \<and> (w_pools w this = Some q \<longrightarrow>
        warm_up_singleton so mal t this cnt raw w = Inr w
        \<and> warm_up_tls_pool so mal t this cnt raw w = Inr w)
   \<and> (w_pools w this = None \<longrightarrow>
        warm_up_singleton so mal t this cnt raw w = Pool_ctor so mal t this cnt raw w
        \<and> warm_up_tls_pool so mal t this cnt raw w = Pool_ctor so mal t this cnt raw w)"
proof -
  have e: "w_pools w this = None \<longrightarrow>
        warm_up_singleton so mal t this cnt raw w = Pool_ctor so mal t this cnt raw w
        \<and> warm_up_tls_pool so mal t this cnt raw w = Pool_ctor so mal t this cnt raw w"
    by (simp add: warm_up_singleton_def warm_up_tls_pool_def get_singleton_pool_def
        get_tls_pool_def)
  show ?thesis
    using ctor_hint [of cnt mal so t this raw w] ctor_default [of cnt so mal t this raw w]
      run_cnt [of so ops q xs q'] warm_up_late [of w this q so mal t cnt raw] e
    by blast
qed

theorem block_size_hint_witness:
  "0 <s (4::32 word) \<and> \<not> 0 <s (0::32 word)
   \<and> (\<exists>w' p. Pool_ctor 16 (\<lambda>n. if n = 72 then 4096 else 0) 1 100 4 raw_storage World_init = Inr w'
         \<and> w_pools w' 100 = Some p \<and> m_cnt p = 4 \<and> unat (fst (total_cnt p)) = 4
         \<and> m_blocks p = 4096)
   \<and> (\<exists>w' p. Pool_ctor 16 (\<lambda>n. 0) 1 100 0 raw_storage World_init = Inr w'
         \<and> w_pools w' 100 = Some p \<and> m_cnt p = 128 \<and> fst (total_cnt p) = 0
         \<and> m_blocks p = nullptr)
   \<and> run 16 [Get (\<lambda>n. 0), Ret 4120] grown_pool
        = Inr ([4120], grown_pool\<lparr>m_curr := 4136, m_free := 4120,
            Obj_next := (\<lambda>x. 0)(4120 := 0)\<rparr>)
   \<and> m_cnt (grown_pool\<lparr>m_curr := 4136, m_free := 4120, Obj_next := (\<lambda>x. 0)(4120 := 0)\<rparr>)
        = m_cnt grown_pool
   \<and> w_pools buffered_world 100 = Some (Pool_init raw_storage)
   \<and> warm_up_singleton 16 (\<lambda>n. 4096) 1 100 64 raw_storage buffered_world = Inr buffered_world
   \<and> warm_up_tls_pool 16 (\<lambda>n. 4096) 1 100 64 raw_storage buffered_world = Inr buffered_world"
proof -
  have h1: "0 <s (4::32 word)" and h2: "\<not> 0 <s (0::32 word)" by (simp_all add: word_sless_alt)
  have ms: "malloc_size 16 4 = 72" by (simp add: malloc_size_def sizeof_Block_def)
  have h3: "(\<lambda>n. if n = 72 then 4096 else 0) (malloc_size 16 4) \<noteq> nullptr"
    by (simp add: ms nullptr_def)
  from block_size_hint [of 4 "\<lambda>n. if n = 72 then 4096 else 0" 16 1 100 raw_storage World_init]
    h1 h3 ms
  have c1: "\<exists>w' p. Pool_ctor 16 (\<lambda>n. if n = 72 then 4096 else 0) 1 100 4 raw_storage World_init
         = Inr w' \<and> w_pools w' 100 = Some p \<and> m_cnt p = 4 \<and> unat (fst (total_cnt p)) = 4
         \<and> m_blocks p = 4096"
    by simp blast
  from block_size_hint [of 0 "\<lambda>n. 0" 16 1 100 raw_storage World_init] h2
  have c2: "\<exists>w' p. Pool_ctor 16 (\<lambda>n. 0) 1 100 0 raw_storage World_init = Inr w'
         \<and> w_pools w' 100 = Some p \<and> m_cnt p = 128 \<and> fst (total_cnt p) = 0
         \<and> m_blocks p = nullptr"
    by blast
  let ?q = "grown_pool\<lparr>m_curr := 4136, m_free := 4120, Obj_next := (\<lambda>x. 0)(4120 := 0)\<rparr>"
  have r: "run 16 [Get (\<lambda>n. 0), Ret 4120] grown_pool = Inr ([4120], ?q)"
    by (simp add: get_def ret_def Let_def grown_pool_def nullptr_def)
  from block_size_hint [where so=16 and ops="[Get (\<lambda>n. 0), Ret 4120]" and q=grown_pool
      and xs="[4120]" and q'="?q"] r
  have c3: "m_cnt ?q = m_cnt grown_pool" by blast
  have b: "w_pools buffered_world 100 = Some (Pool_init raw_storage)"
    by (simp add: buffered_world_def)
  from block_size_hint [where cnt=64 and mal="\<lambda>n. 4096" and so=16 and t=1 and this=100
      and raw=raw_storage and w=buffered_world and q="Pool_init raw_storage"] b
  have c4: "warm_up_singleton 16 (\<lambda>n. 4096) 1 100 64 raw_storage buffered_world
        = Inr buffered_world
      \<and> warm_up_tls_pool 16 (\<lambda>n. 4096) 1 100 64 raw_storage buffered_world
        = Inr buffered_world"
    by blast
  from h1 h2 c1 c2 r c3 b c4 show ?thesis by blast
qed

subsection \<open>Invariants of runs\<close>

lemma of_nat_unat_cnt: "0 <s (c::32 word) \<Longrightarrow> (scast c :: 64 word) = of_nat (unat c)"
  by (simp add: scast_pos)

lemma slot_mono: "0 < so \<Longrightarrow> slot so b i < slot so b j \<longleftrightarrow> i < j"
  by (simp add: slot_def)

lemma slot_Suc: "slot so b i + so = slot so b (Suc i)"
  by (simp add: slot_def)

lemma blocks_inv_size:
  "blocks_inv so p B \<Longrightarrow> malloc_size so (m_cnt p) = block_bytes so (m_cnt p)"
  by (simp add: blocks_inv_def block_bytes_def malloc_size_fits)

lemma blocks_inv_frame:
  assumes "blocks_inv so p B"
    and "m_curr p' = m_curr p" and "m_last p' = m_last p" and "m_cnt p' = m_cnt p"
    and "m_total_cnt p' = m_total_cnt p"
  shows "blocks_inv so p' B"
  using assms by (simp add: blocks_inv_def)

lemma get_freeD:
  "m_free p \<noteq> nullptr \<Longrightarrow> get so mal p = Inr (x, p') \<Longrightarrow>
   x = m_free p \<and> p' = p\<lparr>m_use_cnt := m_use_cnt p + 1, m_free := Obj_next p (m_free p)\<rparr>"
  by (auto simp: get_free)

lemma get_bumpD:
  "m_free p = nullptr \<Longrightarrow> m_curr p < m_last p \<Longrightarrow> get so mal p = Inr (x, p') \<Longrightarrow>
   x = m_curr p \<and> p' = p\<lparr>m_use_cnt := m_use_cnt p + 1, m_curr := m_curr p + so\<rparr>"
  by (auto simp: get_bump)

lemma ret_blocks_inv:
  "blocks_inv so p B \<Longrightarrow> ret t p = Inr p' \<Longrightarrow> blocks_inv so p' B"
  by (erule blocks_inv_frame) (auto simp: ret_def Let_def split: if_splits)

lemma get_free_blocks_inv:
  "blocks_inv so p B \<Longrightarrow> m_free p \<noteq> nullptr \<Longrightarrow> get so mal p = Inr (x, p') \<Longrightarrow>
   blocks_inv so p' B"
  by (erule blocks_inv_frame) (auto dest: get_freeD)

lemma get_bump_blocks_inv:
  assumes inv: "blocks_inv so p B" and f: "m_free p = nullptr" and lt: "m_curr p < m_last p"
    and g: "get so mal p = Inr (x, p')"
  shows "blocks_inv so p' B"
proof -
  have p': "p' = p\<lparr>m_use_cnt := m_use_cnt p + 1, m_curr := m_curr p + so\<rparr>"
    using get_bumpD [OF f lt g] by simp
  have so: "0 < so" using inv by (simp add: blocks_inv_def)
  have ne: "B \<noteq> []" using inv lt by (auto simp: blocks_inv_def)
  with inv obtain k where k: "k \<le> unat (m_cnt p)" "m_curr p = slot so (hd B) k"
    and l: "m_last p = slot so (hd B) (unat (m_cnt p))"
    by (auto simp: blocks_inv_def)
  from lt k l so have "k < unat (m_cnt p)" by (simp add: slot_mono)
  then have "Suc k \<le> unat (m_cnt p)" by simp
  moreover have "m_curr p' = slot so (hd B) (Suc k)" by (simp add: p' k slot_Suc)
  ultimately have "\<exists>k\<le>unat (m_cnt p). m_curr p' = slot so (hd B) k" by blast
  then show ?thesis using inv ne by (simp add: blocks_inv_def p')
qed

lemma get_grow_blocks_inv:
  assumes inv: "blocks_inv so p B" and gr: "grows p"
    and ok: "malloc_ok (malloc_size so (m_cnt p)) (mal (malloc_size so (m_cnt p))) B"
    and g: "get so mal p = Inr (x, p')"
  shows "blocks_inv so p' (mal (malloc_size so (m_cnt p)) # B)
     \<and> x = slot so (mal (malloc_size so (m_cnt p))) 0
     \<and> m_curr p' = slot so (mal (malloc_size so (m_cnt p))) 1
     \<and> m_cnt p' = m_cnt p \<and> m_free p' = m_free p \<and> Obj_next p' = Obj_next p"
proof -
  let ?n = "malloc_size so (m_cnt p)"
  let ?b = "mal ?n"
  let ?c = "unat (m_cnt p)"
  have f: "m_free p = nullptr" and le: "m_last p \<le> m_curr p" using gr by (simp_all add: grows_def)
  have nn: "?b \<noteq> nullptr"
  proof
    assume "?b = nullptr"
    then have "get so mal p = Inl NullDeref" using f le by (simp add: get_grow_null)
    with g show False by simp
  qed
  have pos: "0 <s m_cnt p" and so: "0 < so" using inv by (simp_all add: blocks_inv_def)
  have n: "?n = block_bytes so (m_cnt p)" using inv by (rule blocks_inv_size)
  have c1: "1 \<le> ?c" using unat_pos [OF pos] by simp
  have l: "nat (int (?b + sizeof_Block) + sint (m_cnt p) * int so) = slot so ?b ?c"
  proof -
    have "int (?b + sizeof_Block) + sint (m_cnt p) * int so = int (slot so ?b ?c)"
      by (simp add: sint_pos [OF pos] slot_def)
    then show ?thesis by (simp only: nat_int)
  qed
  define P where "P = p\<lparr>m_use_cnt := m_use_cnt p + 1,
      Block_next := (Block_next p)(?b := m_blocks p), m_blocks := ?b,
      m_last := slot so ?b ?c,
      m_total_cnt := m_total_cnt p + scast (m_cnt p),
      m_curr := ?b + sizeof_Block + so\<rparr>"
  have eq: "get so mal p = Inr (?b + sizeof_Block, P)"
    unfolding P_def l [symmetric] using f le nn by (intro get_grow) simp_all
  from g eq have x: "x = slot so ?b 0" and p': "p' = P" by (simp_all add: slot_def)
  have cur: "m_curr p' = slot so ?b 1" by (simp add: p' P_def slot_def)
  have las: "m_last p' = slot so ?b ?c" by (simp add: p' P_def)
  have cn: "m_cnt p' = m_cnt p" by (simp add: p' P_def)
  have tot: "m_total_cnt p' = of_nat (length (?b # B) * ?c)"
  proof -
    have "m_total_cnt p = of_nat (length B * ?c)" using inv by (simp add: blocks_inv_def)
    then show ?thesis using pos by (simp add: p' P_def of_nat_unat_cnt)
  qed
  have sp: "?b + block_bytes so (m_cnt p) \<le> 2 ^ 64"
    and dj: "list_all (\<lambda>b'. ?b + block_bytes so (m_cnt p) \<le> b' \<or> b' + block_bytes so (m_cnt p) \<le> ?b) B"
    using ok nn by (simp_all add: malloc_ok_def n)
  have "blocks_inv so p' (?b # B)"
    unfolding blocks_inv_def cn
  proof (intro conjI impI)
    show "0 < so" by (rule so)
    show "0 <s m_cnt p" by (rule pos)
    show "block_bytes so (m_cnt p) < 2 ^ 64" using inv by (simp add: blocks_inv_def)
    show "list_all (\<lambda>b. b \<noteq> nullptr \<and> b + block_bytes so (m_cnt p) \<le> 2 ^ 64) (?b # B)"
      using inv nn sp by (simp add: blocks_inv_def)
    show "disjoint_blocks (block_bytes so (m_cnt p)) (?b # B)"
      using inv dj by (simp add: blocks_inv_def)
    show "m_total_cnt p' = of_nat (length (?b # B) * ?c)" by (rule tot)
    show "m_last p' = slot so (hd (?b # B)) ?c" by (simp add: las)
    show "\<exists>k\<le>?c. m_curr p' = slot so (hd (?b # B)) k" using c1 cur by auto
  qed simp_all
  then show ?thesis using x cur by (simp add: p' P_def)
qed

lemma free_list_null: "free_list nx nullptr F \<Longrightarrow> F = []"
  by (cases F) simp_all

lemma free_list_nonnull:
  "x \<noteq> nullptr \<Longrightarrow> free_list nx x F \<Longrightarrow> \<exists>F'. F = x # F' \<and> free_list nx (nx x) F'"
  by (cases F) simp_all

lemma free_list_upd:
  "t \<notin> set F \<Longrightarrow> free_list (nx(t := v)) x F = free_list nx x F"
  by (induction F arbitrary: x) auto

lemma slot_in_block:
  assumes "0 < so" and "i < c"
  shows "b < slot so b i \<and> slot so b i + so \<le> b + (sizeof_Block + so * c)"
proof -
  from assms(2) have "Suc i \<le> c" by simp
  then have "Suc i * so \<le> c * so" by (rule mult_le_mono1)
  then have "i * so + so \<le> so * c" by (simp add: mult.commute)
  then show ?thesis by (simp add: slot_def sizeof_Block_def)
qed

lemma disjoint_blocksD:
  "disjoint_blocks n B \<Longrightarrow> b \<in> set B \<Longrightarrow> b' \<in> set B \<Longrightarrow> b \<noteq> b' \<Longrightarrow>
   b + n \<le> b' \<or> b' + n \<le> b"
proof (induction B)
  case Nil
  then show ?case by simp
next
  case (Cons a B)
  then show ?case by (auto simp: list_all_iff)
qed

lemma slots_apart:
  assumes so: "0 < so" and i: "i < c" and j: "j < c"
    and d: "b + (sizeof_Block + so * c) \<le> b' \<or> b' + (sizeof_Block + so * c) \<le> b"
  shows "slot so b i \<noteq> slot so b' j"
  using slot_in_block [OF so i, of b] slot_in_block [OF so j, of b'] d so by linarith

lemma new_slot_fresh:
  assumes so: "0 < so" and i: "i < unat cnt"
    and d: "list_all (\<lambda>b'. b + block_bytes so cnt \<le> b' \<or> b' + block_bytes so cnt \<le> b) B"
  shows "slot so b i \<notin> all_slots so cnt B"
proof
  assume "slot so b i \<in> all_slots so cnt B"
  then obtain b' j where b': "b' \<in> set B" and j: "j < unat cnt"
    and e: "slot so b i = slot so b' j"
    by (auto simp: all_slots_def)
  from d b' have "b + block_bytes so cnt \<le> b' \<or> b' + block_bytes so cnt \<le> b"
    by (simp add: list_all_iff)
  then have "slot so b i \<noteq> slot so b' j"
    unfolding block_bytes_def by (rule slots_apart [OF so i j])
  with e show False by simp
qed

lemma issued_subset:
  "B \<noteq> [] \<Longrightarrow> issued so p B \<subseteq> all_slots so (m_cnt p) B"
  by (cases B) (auto simp: issued_def all_slots_def)

lemma issued_empty: "issued so p [] = {}"
  by (simp add: issued_def)

lemma all_slots_Cons:
  "all_slots so cnt (b # B) = slot so b ` {..<unat cnt} \<union> all_slots so cnt B"
  by (simp add: all_slots_def)

lemma all_slots_range:
  assumes so: "0 < so"
    and sp: "list_all (\<lambda>b. b \<noteq> nullptr \<and> b + block_bytes so cnt \<le> 2 ^ 64) B"
  shows "all_slots so cnt B \<subseteq> {1..<2 ^ 64}"
proof
  fix x assume "x \<in> all_slots so cnt B"
  then obtain b i where b: "b \<in> set B" and i: "i < unat cnt" and x: "x = slot so b i"
    by (auto simp: all_slots_def)
  from sp b have "b + block_bytes so cnt \<le> 2 ^ 64" by (simp add: list_all_iff)
  with slot_in_block [OF so i, of b] so have "0 < x \<and> x < 2 ^ 64"
    unfolding x block_bytes_def by linarith
  then show "x \<in> {1..<2 ^ 64}" by simp
qed

lemma issued_frame:
  "m_curr p' = m_curr p \<Longrightarrow> m_cnt p' = m_cnt p \<Longrightarrow> issued so p' B = issued so p B"
  by (simp add: issued_def)

lemma ret_slots_inv:
  assumes inv: "slots_inv so p F L B" and t: "t \<in> set L" and r: "ret t p = Inr p'"
  shows "slots_inv so p' (t # F) (remove1 t L) B"
proof -
  have t0: "t \<noteq> nullptr" using r by (auto simp: ret_def Let_def split: if_splits)
  have p': "p' = p\<lparr>m_use_cnt := m_use_cnt p - 1,
      Obj_next := (Obj_next p)(t := m_free p), m_free := t\<rparr>"
    using r t0 by (simp add: ret_def Let_def)
  have fl: "free_list (Obj_next p) (m_free p) F" and d: "distinct (F @ L)"
    and s: "set (F @ L) \<subseteq> issued so p B"
    using inv by (simp_all add: slots_inv_def)
  have tF: "t \<notin> set F" using d t by auto
  have 1: "free_list (Obj_next p') (m_free p') (t # F)"
    using fl t0 tF by (simp add: p' free_list_upd)
  have 2: "distinct ((t # F) @ remove1 t L)"
    using d t tF by (auto dest: notin_set_remove1)
  have "set ((t # F) @ remove1 t L) = set (F @ L)"
    using d t by auto
  moreover have "issued so p' B = issued so p B"
    by (rule issued_frame) (simp_all add: p')
  ultimately have 3: "set ((t # F) @ remove1 t L) \<subseteq> issued so p' B" using s by simp
  from 1 2 3 show ?thesis unfolding slots_inv_def by blast
qed

lemma get_free_slots_inv:
  assumes inv: "slots_inv so p F L B" and f: "m_free p \<noteq> nullptr"
    and g: "get so mal p = Inr (x, p')"
  shows "\<exists>F'. F = x # F' \<and> slots_inv so p' F' (x # L) B"
proof -
  from get_freeD [OF f g] have x: "x = m_free p"
    and p': "p' = p\<lparr>m_use_cnt := m_use_cnt p + 1, m_free := Obj_next p (m_free p)\<rparr>"
    by simp_all
  have fl: "free_list (Obj_next p) (m_free p) F" and d: "distinct (F @ L)"
    and s: "set (F @ L) \<subseteq> issued so p B"
    using inv by (simp_all add: slots_inv_def)
  from free_list_nonnull [OF f fl] obtain F' where F: "F = x # F'"
    and fl': "free_list (Obj_next p) (Obj_next p x) F'" by (auto simp: x)
  have 1: "free_list (Obj_next p') (m_free p') F'" using fl' by (simp add: p' x)
  have 2: "distinct (F' @ x # L)" using d by (auto simp: F)
  have "issued so p' B = issued so p B" by (rule issued_frame) (simp_all add: p')
  then have 3: "set (F' @ x # L) \<subseteq> issued so p' B" using s by (auto simp: F)
  from 1 2 3 F show ?thesis unfolding slots_inv_def by blast
qed

lemma get_bump_slots_inv:
  assumes binv: "blocks_inv so p B" and inv: "slots_inv so p F L B"
    and f: "m_free p = nullptr" and lt: "m_curr p < m_last p"
    and g: "get so mal p = Inr (x, p')"
  shows "F = [] \<and> slots_inv so p' [] (x # L) B"
proof -
  from get_bumpD [OF f lt g] have x: "x = m_curr p"
    and p': "p' = p\<lparr>m_use_cnt := m_use_cnt p + 1, m_curr := m_curr p + so\<rparr>"
    by simp_all
  let ?c = "unat (m_cnt p)"
  have so: "0 < so" using binv by (simp add: blocks_inv_def)
  have ne: "B \<noteq> []" using binv lt by (auto simp: blocks_inv_def)
  with binv obtain k where k: "k \<le> ?c" "m_curr p = slot so (hd B) k"
    and l: "m_last p = slot so (hd B) ?c"
    by (auto simp: blocks_inv_def)
  from lt k l so have kc: "k < ?c" by (simp add: slot_mono)
  have fl: "free_list (Obj_next p) (m_free p) F" and d: "distinct (F @ L)"
    and s: "set (F @ L) \<subseteq> issued so p B"
    using inv by (simp_all add: slots_inv_def)
  have F: "F = []" using fl f by (simp add: free_list_null)
  have dj: "list_all (\<lambda>b'. hd B + block_bytes so (m_cnt p) \<le> b'
      \<or> b' + block_bytes so (m_cnt p) \<le> hd B) (tl B)"
    using binv ne by (cases B) (simp_all add: blocks_inv_def)
  have fresh: "x \<notin> all_slots so (m_cnt p) (tl B)"
    unfolding x k by (rule new_slot_fresh [OF so kc dj])
  have xi: "x \<notin> issued so p B" using fresh ne by (auto simp: issued_def x)
  have 1: "free_list (Obj_next p') (m_free p') []" using f by (simp add: p')
  have 2: "distinct ([] @ x # L)" using d xi s by (auto simp: F)
  have sub: "issued so p B \<subseteq> issued so p' B" using ne by (auto simp: issued_def p')
  have "x \<in> issued so p' B" using ne kc so by (auto simp: issued_def p' x k)
  with sub s have 3: "set ([] @ x # L) \<subseteq> issued so p' B" by (auto simp: F)
  from 1 2 3 F show ?thesis unfolding slots_inv_def by blast
qed

lemma get_grow_slots_inv:
  assumes binv: "blocks_inv so p B" and inv: "slots_inv so p F L B"
    and gr: "grows p"
    and ok: "malloc_ok (malloc_size so (m_cnt p)) (mal (malloc_size so (m_cnt p))) B"
    and g: "get so mal p = Inr (x, p')"
  shows "F = [] \<and> slots_inv so p' [] (x # L) (mal (malloc_size so (m_cnt p)) # B)"
proof -
  let ?n = "malloc_size so (m_cnt p)"
  let ?b = "mal ?n"
  let ?c = "unat (m_cnt p)"
  from get_grow_blocks_inv [OF binv gr ok g] have
    x: "x = slot so ?b 0" and cur: "m_curr p' = slot so ?b 1" and cn: "m_cnt p' = m_cnt p"
    and fr: "m_free p' = m_free p" and nx: "Obj_next p' = Obj_next p" by simp_all
  have f: "m_free p = nullptr" using gr by (simp add: grows_def)
  have nn: "?b \<noteq> nullptr"
  proof
    assume "?b = nullptr"
    then have "get so mal p = Inl NullDeref" using gr by (simp add: get_grow_null grows_def)
    with g show False by simp
  qed
  have so: "0 < so" and pos: "0 <s m_cnt p" using binv by (simp_all add: blocks_inv_def)
  have c0: "0 < ?c" by (rule unat_pos [OF pos])
  have n: "?n = block_bytes so (m_cnt p)" using binv by (rule blocks_inv_size)
  have dj: "list_all (\<lambda>b'. ?b + block_bytes so (m_cnt p) \<le> b'
      \<or> b' + block_bytes so (m_cnt p) \<le> ?b) B"
    using ok nn by (simp add: malloc_ok_def n)
  have fl: "free_list (Obj_next p) (m_free p) F" and d: "distinct (F @ L)"
    and s: "set (F @ L) \<subseteq> issued so p B"
    using inv by (simp_all add: slots_inv_def)
  have F: "F = []" using fl f by (simp add: free_list_null)
  have old: "issued so p B \<subseteq> all_slots so (m_cnt p) B"
    by (cases "B = []") (simp_all add: issued_empty issued_subset)
  have fresh: "x \<notin> all_slots so (m_cnt p) B"
    unfolding x by (rule new_slot_fresh [OF so c0 dj])
  have 1: "free_list (Obj_next p') (m_free p') []" using f by (simp add: fr)
  have 2: "distinct ([] @ x # L)" using d s old fresh by (auto simp: F)
  have "x \<in> issued so p' (?b # B)" using c0 so by (auto simp: issued_def cn cur x slot_mono)
  moreover have "all_slots so (m_cnt p) B \<subseteq> issued so p' (?b # B)"
    by (auto simp: issued_def cn)
  ultimately have 3: "set ([] @ x # L) \<subseteq> issued so p' (?b # B)"
    using s old by (auto simp: F)
  from 1 2 3 F show ?thesis unfolding slots_inv_def by blast
qed

lemma not_grows_cases:
  "\<not> grows p \<Longrightarrow> m_free p \<noteq> nullptr \<or> (m_free p = nullptr \<and> m_curr p < m_last p)"
  by (auto simp: grows_def)

lemma get_blocks_inv:
  assumes binv: "blocks_inv so p B" and g: "get so mal p = Inr (x, q)"
    and ok: "grows p \<longrightarrow> malloc_ok (malloc_size so (m_cnt p)) (mal (malloc_size so (m_cnt p))) B"
  shows "blocks_inv so q (if grows p then mal (malloc_size so (m_cnt p)) # B else B)
    \<and> m_cnt q = m_cnt p"
proof (cases "grows p")
  case True
  with get_grow_blocks_inv [OF binv True _ g] ok show ?thesis by simp
next
  case False
  from not_grows_cases [OF False] show ?thesis
  proof
    assume f: "m_free p \<noteq> nullptr"
    from get_free_blocks_inv [OF binv f g] get_freeD [OF f g] False show ?thesis by simp
  next
    assume a: "m_free p = nullptr \<and> m_curr p < m_last p"
    then have f: "m_free p = nullptr" and lt: "m_curr p < m_last p" by simp_all
    from get_bump_blocks_inv [OF binv f lt g] get_bumpD [OF f lt g] False
    show ?thesis by simp
  qed
qed

lemma get_slots_inv:
  assumes binv: "blocks_inv so p B" and inv: "slots_inv so p F L B"
    and g: "get so mal p = Inr (x, q)"
    and ok: "grows p \<longrightarrow> malloc_ok (malloc_size so (m_cnt p)) (mal (malloc_size so (m_cnt p))) B"
  shows "\<exists>F'. slots_inv so q F' (x # L)
           (if grows p then mal (malloc_size so (m_cnt p)) # B else B)"
proof (cases "grows p")
  case True
  with get_grow_slots_inv [OF binv inv True _ g] ok show ?thesis by auto
next
  case False
  from not_grows_cases [OF False] show ?thesis
  proof
    assume f: "m_free p \<noteq> nullptr"
    from get_free_slots_inv [OF inv f g] False show ?thesis by auto
  next
    assume a: "m_free p = nullptr \<and> m_curr p < m_last p"
    then have f: "m_free p = nullptr" and lt: "m_curr p < m_last p" by simp_all
    from get_bump_slots_inv [OF binv inv f lt g] False show ?thesis by auto
  qed
qed

lemma slots_inv_member:
  assumes "slots_inv so q F (x # L) B"
  shows "x \<in> all_slots so (m_cnt q) B"
proof -
  from assms have x: "x \<in> issued so q B" by (auto simp: slots_inv_def)
  then have "B \<noteq> []" by (auto simp: issued_def)
  from issued_subset [OF this] x show ?thesis by blast
qed

lemma all_slots_mono: "set B \<subseteq> set B' \<Longrightarrow> all_slots so cnt B \<subseteq> all_slots so cnt B'"
  by (auto simp: all_slots_def)

lemma run_slots_inv:
  "blocks_inv so p B \<Longrightarrow> slots_inv so p F L B \<Longrightarrow> malloc_respects so ops p B \<Longrightarrow>
   caller_respects so ops p L \<Longrightarrow> run so ops p = Inr (xs, p') \<Longrightarrow>
   \<exists>F' L' B'. blocks_inv so p' (B' @ B) \<and> slots_inv so p' F' L' (B' @ B)
      \<and> m_cnt p' = m_cnt p
      \<and> length L' + rets ops = length L + gets ops
      \<and> set xs \<subseteq> all_slots so (m_cnt p) (B' @ B)"
proof (induction ops arbitrary: p B F L xs)
  case Nil
  then have "blocks_inv so p' ([] @ B) \<and> slots_inv so p' F L ([] @ B)
      \<and> m_cnt p' = m_cnt p
      \<and> length L + rets [] = length L + gets []
      \<and> set xs \<subseteq> all_slots so (m_cnt p) ([] @ B)" by auto
  then show ?case by blast
next
  case (Cons a ops)
  show ?case
  proof (cases a)
    case (Get mal)
    let ?n = "malloc_size so (m_cnt p)"
    let ?B1 = "if grows p then mal ?n # B else B"
    from Cons.prems(5) Get obtain x q ys where g: "get so mal p = Inr (x, q)"
      and r: "run so ops q = Inr (ys, p')" and xs: "xs = x # ys"
      by (auto split: sum.splits prod.splits)
    have ok: "grows p \<longrightarrow> malloc_ok ?n (mal ?n) B"
      using Cons.prems(3) Get by (simp add: Let_def split: if_splits)
    have mr: "malloc_respects so ops q ?B1"
      using Cons.prems(3) Get g by (simp add: Let_def split: if_splits)
    have cr: "caller_respects so ops q (x # L)" using Cons.prems(4) Get g by simp
    from get_blocks_inv [OF Cons.prems(1) g ok] have b1: "blocks_inv so q ?B1"
      and c1: "m_cnt q = m_cnt p" by simp_all
    from get_slots_inv [OF Cons.prems(1,2) g ok] obtain F1 where
      s1: "slots_inv so q F1 (x # L) ?B1" by blast
    from Cons.IH [OF b1 s1 mr cr r] obtain F' L' B' where
      i: "blocks_inv so p' (B' @ ?B1)" and s: "slots_inv so p' F' L' (B' @ ?B1)"
      and c: "m_cnt p' = m_cnt q"
      and n: "length L' + rets ops = length (x # L) + gets ops"
      and y: "set ys \<subseteq> all_slots so (m_cnt q) (B' @ ?B1)" by blast
    obtain B2 where B2: "B' @ ?B1 = B2 @ B"
    proof (cases "grows p")
      case True
      then have "B' @ ?B1 = (B' @ [mal ?n]) @ B" by simp
      then show ?thesis by (rule that)
    next
      case False
      then have "B' @ ?B1 = B' @ B" by simp
      then show ?thesis by (rule that)
    qed
    have "x \<in> all_slots so (m_cnt q) ?B1" using s1 by (rule slots_inv_member)
    then have "x \<in> all_slots so (m_cnt q) (B' @ ?B1)"
      using all_slots_mono [of ?B1 "B' @ ?B1" so "m_cnt q"] by auto
    with y have "set xs \<subseteq> all_slots so (m_cnt p) (B' @ ?B1)" by (simp add: xs c1)
    moreover have "length L' + rets (a # ops) = length L + gets (a # ops)"
      using n Get by simp
    ultimately have "blocks_inv so p' (B2 @ B) \<and> slots_inv so p' F' L' (B2 @ B)
      \<and> m_cnt p' = m_cnt p
      \<and> length L' + rets (a # ops) = length L + gets (a # ops)
      \<and> set xs \<subseteq> all_slots so (m_cnt p) (B2 @ B)"
      using i s c c1 by (simp add: B2)
    then show ?thesis by blast
  next
    case (Ret t)
    from Cons.prems(5) Ret obtain q where g: "ret t p = Inr q"
      and r: "run so ops q = Inr (xs, p')"
      by (auto split: sum.splits)
    have t: "t \<in> set L" using Cons.prems(4) Ret by simp
    have mr: "malloc_respects so ops q B" using Cons.prems(3) Ret g by simp
    have cr: "caller_respects so ops q (remove1 t L)" using Cons.prems(4) Ret g by simp
    have b1: "blocks_inv so q B" by (rule ret_blocks_inv [OF Cons.prems(1) g])
    have s1: "slots_inv so q (t # F) (remove1 t L) B"
      by (rule ret_slots_inv [OF Cons.prems(2) t g])
    from Cons.IH [OF b1 s1 mr cr r] obtain F' L' B' where
      i: "blocks_inv so p' (B' @ B)" and s: "slots_inv so p' F' L' (B' @ B)"
      and c: "m_cnt p' = m_cnt q"
      and n: "length L' + rets ops = length (remove1 t L) + gets ops"
      and y: "set xs \<subseteq> all_slots so (m_cnt q) (B' @ B)" by blast
    have "length (remove1 t L) = length L - 1" using t by (simp add: length_remove1)
    moreover have "0 < length L" using t by (cases L) auto
    ultimately have "length L' + rets (a # ops) = length L + gets (a # ops)"
      using n Ret by simp
    then have "blocks_inv so p' (B' @ B) \<and> slots_inv so p' F' L' (B' @ B)
      \<and> m_cnt p' = m_cnt p
      \<and> length L' + rets (a # ops) = length L + gets (a # ops)
      \<and> set xs \<subseteq> all_slots so (m_cnt p) (B' @ B)"
      using i s c y ret_cnt [OF g] by simp
    then show ?thesis by blast
  qed
qed

lemma cover_card:
  "disjoint_blocks n B \<Longrightarrow>
   finite (\<Union>b\<in>set B. {b..<b + n}) \<and> card (\<Union>b\<in>set B. {b..<b + n}) = length B * n"
proof (induction B)
  case Nil
  show ?case by simp
next
  case (Cons a B)
  let ?U = "\<Union>b\<in>set B. {b..<b + n}"
  from Cons have IH: "finite ?U" "card ?U = length B * n"
    and d: "list_all (\<lambda>b'. a + n \<le> b' \<or> b' + n \<le> a) B" by simp_all
  have dj: "{a..<a + n} \<inter> ?U = {}"
  proof (rule ccontr)
    assume "{a..<a + n} \<inter> ?U \<noteq> {}"
    then obtain x b where x: "a \<le> x" "x < a + n" and b: "b \<in> set B" "b \<le> x" "x < b + n"
      by auto
    from d b(1) have "a + n \<le> b \<or> b + n \<le> a" by (simp add: list_all_iff)
    with x b show False by linarith
  qed
  have "card ({a..<a + n} \<union> ?U) = card {a..<a + n} + card ?U"
    using IH(1) dj by (intro card_Un_disjoint) simp_all
  then have "card ({a..<a + n} \<union> ?U) = length (a # B) * n" using IH(2) by simp
  moreover have "(\<Union>b\<in>set (a # B). {b..<b + n}) = {a..<a + n} \<union> ?U" by simp
  ultimately show ?case using IH(1) by simp
qed

lemma blocks_total_bound:
  assumes "blocks_inv so p B"
  shows "length B * unat (m_cnt p) < 2 ^ 64"
proof (cases "B = []")
  case True
  then show ?thesis by simp
next
  case False
  let ?n = "block_bytes so (m_cnt p)"
  let ?U = "\<Union>b\<in>set B. {b..<b + ?n}"
  have so: "0 < so" and dj: "disjoint_blocks ?n B"
    and sp: "list_all (\<lambda>b. b \<noteq> nullptr \<and> b + ?n \<le> 2 ^ 64) B"
    using assms by (simp_all add: blocks_inv_def)
  from cover_card [OF dj] have c: "card ?U = length B * ?n" by simp
  have "?U \<subseteq> {..<2 ^ 64}" using sp by (auto simp: list_all_iff)
  then have "card ?U \<le> card {..<(2::nat) ^ 64}" by (intro card_mono) simp_all
  then have le: "length B * ?n \<le> 2 ^ 64" using c by simp
  have "1 * unat (m_cnt p) \<le> so * unat (m_cnt p)" using so by (intro mult_le_mono1) simp
  then have "unat (m_cnt p) < sizeof_Block + so * unat (m_cnt p)"
    unfolding sizeof_Block_def by linarith
  then have "unat (m_cnt p) < ?n" by (simp only: block_bytes_def)
  moreover have "0 < length B" using False by simp
  ultimately have "length B * unat (m_cnt p) < length B * ?n" by simp
  with le show ?thesis by linarith
qed

lemma blocks_total:
  assumes "blocks_inv so p B"
  shows "unat (fst (total_cnt p)) = length B * unat (m_cnt p)"
proof -
  have "m_total_cnt p = of_nat (length B * unat (m_cnt p))"
    using assms by (simp add: blocks_inv_def)
  then have "unat (m_total_cnt p) = (length B * unat (m_cnt p)) mod 2 ^ 64"
    by (simp only: unat_of_nat) simp
  also have "\<dots> = length B * unat (m_cnt p)"
    using blocks_total_bound [OF assms] by simp
  finally show ?thesis by (simp add: total_cnt_def)
qed

lemma card_all_slots:
  "finite (all_slots so cnt B) \<and> card (all_slots so cnt B) \<le> length B * unat cnt"
proof (induction B)
  case Nil
  show ?case by (simp add: all_slots_def)
next
  case (Cons a B)
  let ?A = "slot so a ` {..<unat cnt}"
  have "card ?A \<le> unat cnt" using card_image_le [of "{..<unat cnt}" "slot so a"] by simp
  moreover have "card (?A \<union> all_slots so cnt B) \<le> card ?A + card (all_slots so cnt B)"
    by (rule card_Un_le)
  ultimately show ?case using Cons by (simp add: all_slots_Cons)
qed

lemma live_bound:
  assumes binv: "blocks_inv so p B" and inv: "slots_inv so p F L B"
  shows "length L < 2 ^ 64"
proof -
  have so: "0 < so"
    and sp: "list_all (\<lambda>b. b \<noteq> nullptr \<and> b + block_bytes so (m_cnt p) \<le> 2 ^ 64) B"
    using binv by (simp_all add: blocks_inv_def)
  have d: "distinct L" and s: "set L \<subseteq> issued so p B"
    using inv by (simp_all add: slots_inv_def)
  have "issued so p B \<subseteq> all_slots so (m_cnt p) B"
    by (cases "B = []") (simp_all add: issued_empty issued_subset)
  with s all_slots_range [OF so sp] have "set L \<subseteq> {1..<2 ^ 64}" by blast
  then have "card (set L) \<le> card {1..<(2::nat) ^ 64}" by (intro card_mono) simp_all
  then show ?thesis using d by (simp add: distinct_card)
qed

lemma Pool_object_cnt:
  "Pool_object so mal cnt raw = Inr p \<Longrightarrow> m_cnt p = (if 0 <s cnt then cnt else 128)"
  by (auto simp: Pool_object_def new_block_def Let_def Pool_init_def split: if_splits)

lemma Pool_object_inv:
  assumes so: "0 < so" and o: "Pool_object so mal cnt raw = Inr p"
    and fit: "block_bytes so (m_cnt p) < 2 ^ 64"
    and ok: "malloc_ok (malloc_size so (m_cnt p)) (m_blocks p) []"
  shows "blocks_inv so p (ctor_blocks cnt p) \<and> slots_inv so p [] [] (ctor_blocks cnt p)
    \<and> m_use_cnt p = 0"
proof (cases "0 <s cnt")
  case False
  then have p: "p = Pool_init raw" using o by (simp add: Pool_object_def)
  have "0 <s (128::32 word)" by (simp add: word_sless_alt)
  then have "blocks_inv so p []" using so fit
    by (simp add: blocks_inv_def p) (simp add: Pool_init_def)
  moreover have "slots_inv so p [] [] []" by (simp add: slots_inv_def p Pool_init_def)
  moreover have "m_use_cnt p = 0" by (simp add: p Pool_init_def)
  ultimately show ?thesis using False by (simp add: ctor_blocks_def)
next
  case True
  let ?P0 = "(Pool_init raw)\<lparr>m_cnt := cnt\<rparr>"
  let ?b = "mal (malloc_size so cnt)"
  let ?c = "unat cnt"
  have nb: "new_block so mal ?P0 = Inr p" using o True by (simp add: Pool_object_def)
  then have nn: "?b \<noteq> nullptr" by (auto simp: new_block_def Let_def split: if_splits)
  have l: "nat (int (?b + sizeof_Block) + sint cnt * int so) = slot so ?b ?c"
  proof -
    have "int (?b + sizeof_Block) + sint cnt * int so = int (slot so ?b ?c)"
      by (simp add: sint_pos [OF True] slot_def)
    then show ?thesis by (simp only: nat_int)
  qed
  have p: "p = ?P0\<lparr>Block_next := (Block_next ?P0)(?b := m_blocks ?P0), m_blocks := ?b,
      m_curr := ?b + sizeof_Block, m_last := slot so ?b ?c,
      m_total_cnt := m_total_cnt ?P0 + scast cnt\<rparr>"
    using nb nn unfolding l [symmetric] by (simp add: new_block_def Let_def)
  have cn: "m_cnt p = cnt" and bl: "m_blocks p = ?b" and cu: "m_curr p = slot so ?b 0"
    and la: "m_last p = slot so ?b ?c" and fr: "m_free p = nullptr"
    and us: "m_use_cnt p = 0"
    by (simp_all add: p Pool_init_def slot_def)
  have to: "m_total_cnt p = of_nat (length [?b] * ?c)"
    using True by (simp add: p Pool_init_def of_nat_unat_cnt)
  have n: "malloc_size so cnt = block_bytes so cnt"
    using True fit by (simp add: cn block_bytes_def malloc_size_fits)
  have sp: "?b + block_bytes so cnt \<le> 2 ^ 64"
    using ok nn by (simp add: malloc_ok_def cn bl n)
  have "blocks_inv so p [?b]"
    unfolding blocks_inv_def cn
  proof (intro conjI impI)
    show "0 < so" by (rule so)
    show "0 <s cnt" by (rule True)
    show "block_bytes so cnt < 2 ^ 64" using fit by (simp add: cn)
    show "list_all (\<lambda>b. b \<noteq> nullptr \<and> b + block_bytes so cnt \<le> 2 ^ 64) [?b]"
      using nn sp by simp
    show "disjoint_blocks (block_bytes so cnt) [?b]" by simp
    show "m_total_cnt p = of_nat (length [?b] * ?c)" by (rule to)
    show "m_last p = slot so (hd [?b]) ?c" by (simp add: la)
    show "\<exists>k\<le>?c. m_curr p = slot so (hd [?b]) k" using cu by auto
  qed simp_all
  moreover have "slots_inv so p [] [] [?b]" by (simp add: slots_inv_def fr)
  ultimately show ?thesis using True us by (simp add: ctor_blocks_def bl)
qed

lemma run_blocks_inv_app:
  "blocks_inv so p B \<Longrightarrow> malloc_respects so (ops @ ops') p B \<Longrightarrow>
   run so ops p = Inr (xs, p1) \<Longrightarrow>
   \<exists>B1. blocks_inv so p1 (B1 @ B) \<and> m_cnt p1 = m_cnt p \<and> malloc_respects so ops' p1 (B1 @ B)"
proof (induction ops arbitrary: p B xs)
  case Nil
  then have "blocks_inv so p1 ([] @ B) \<and> m_cnt p1 = m_cnt p
      \<and> malloc_respects so ops' p1 ([] @ B)" by simp
  then show ?case by blast
next
  case (Cons a ops)
  show ?case
  proof (cases a)
    case (Get mal)
    let ?n = "malloc_size so (m_cnt p)"
    let ?B1 = "if grows p then mal ?n # B else B"
    from Cons.prems(3) Get obtain x q ys where g: "get so mal p = Inr (x, q)"
      and r: "run so ops q = Inr (ys, p1)"
      by (auto split: sum.splits prod.splits)
    have ok: "grows p \<longrightarrow> malloc_ok ?n (mal ?n) B"
      using Cons.prems(2) Get by (simp add: Let_def split: if_splits)
    have mr: "malloc_respects so (ops @ ops') q ?B1"
      using Cons.prems(2) Get g by (simp add: Let_def split: if_splits)
    from get_blocks_inv [OF Cons.prems(1) g ok] have b1: "blocks_inv so q ?B1"
      and c1: "m_cnt q = m_cnt p" by simp_all
    from Cons.IH [OF b1 mr r] obtain B' where
      i: "blocks_inv so p1 (B' @ ?B1)" and c: "m_cnt p1 = m_cnt q"
      and m: "malloc_respects so ops' p1 (B' @ ?B1)" by blast
    obtain B2 where B2: "B' @ ?B1 = B2 @ B"
    proof (cases "grows p")
      case True
      then have "B' @ ?B1 = (B' @ [mal ?n]) @ B" by simp
      then show ?thesis by (rule that)
    next
      case False
      then have "B' @ ?B1 = B' @ B" by simp
      then show ?thesis by (rule that)
    qed
    have "blocks_inv so p1 (B2 @ B) \<and> m_cnt p1 = m_cnt p
      \<and> malloc_respects so ops' p1 (B2 @ B)"
      using i c c1 m by (simp add: B2)
    then show ?thesis by blast
  next
    case (Ret t)
    from Cons.prems(3) Ret obtain q where g: "ret t p = Inr q"
      and r: "run so ops q = Inr (xs, p1)"
      by (auto split: sum.splits)
    have mr: "malloc_respects so (ops @ ops') q B" using Cons.prems(2) Ret g by simp
    from Cons.IH [OF ret_blocks_inv [OF Cons.prems(1) g] mr r] ret_cnt [OF g]
    show ?thesis by auto
  qed
qed

lemma run_appendD:
  assumes "run so ops p = Inr (xs, p1)" and "run so (ops @ ops') p = Inr (ys, p2)"
  shows "\<exists>xs'. run so ops' p1 = Inr (xs', p2) \<and> ys = xs @ xs'"
  using assms by (auto simp: run_append split: sum.splits)

lemma live_count:
  assumes so: "0 < so" and o: "Pool_object so mal cnt raw = Inr p"
    and fit: "block_bytes so (m_cnt p) < 2 ^ 64"
    and ok: "malloc_ok (malloc_size so (m_cnt p)) (m_blocks p) []"
    and mr: "malloc_respects so ops p (ctor_blocks cnt p)"
    and cr: "caller_respects so ops p []"
    and r: "run so ops p = Inr (xs, p')"
  shows "rets ops \<le> gets ops \<and> unat (fst (use_cnt p')) = gets ops - rets ops"
proof -
  from Pool_object_inv [OF so o fit ok] have b0: "blocks_inv so p (ctor_blocks cnt p)"
    and s0: "slots_inv so p [] [] (ctor_blocks cnt p)" and u0: "m_use_cnt p = 0" by simp_all
  from run_slots_inv [OF b0 s0 mr cr r] obtain F' L' B' where
    b: "blocks_inv so p' (B' @ ctor_blocks cnt p)"
    and s: "slots_inv so p' F' L' (B' @ ctor_blocks cnt p)"
    and n: "length L' + rets ops = length ([]::addr list) + gets ops" by blast
  from n have le: "rets ops \<le> gets ops" and d: "gets ops - rets ops = length L'" by simp_all
  have lt: "gets ops - rets ops < 2 ^ 64" using live_bound [OF b s] d by simp
  have "m_use_cnt p' = of_nat (gets ops) - of_nat (rets ops)"
    using run_use_cnt [OF r] u0 by simp
  also have "\<dots> = of_nat (gets ops - rets ops)" using le by simp
  finally have "unat (m_use_cnt p') = (gets ops - rets ops) mod 2 ^ 64"
    by (simp only: unat_of_nat) simp
  with lt le show ?thesis by (simp add: use_cnt_def)
qed

lemma blocks_after_mono: "set B \<subseteq> set (blocks_after so ops p B)"
proof (induction ops arbitrary: p B)
  case Nil
  show ?case by simp
next
  case (Cons a ops)
  show ?case
  proof (cases a)
    case (Get mal)
    show ?thesis
    proof (cases "get so mal p")
      case (Inl e)
      then show ?thesis by (simp add: Get)
    next
      case (Inr r)
      obtain x q where r: "r = (x, q)" by (cases r)
      let ?B1 = "if grows p then mal (malloc_size so (m_cnt p)) # B else B"
      have "set B \<subseteq> set ?B1" by auto
      also have "\<dots> \<subseteq> set (blocks_after so ops q ?B1)" by (rule Cons.IH)
      finally show ?thesis by (simp add: Get Inr r)
    qed
  next
    case (Ret t)
    show ?thesis
    proof (cases "ret t p")
      case (Inl e)
      then show ?thesis by (simp add: Ret)
    next
      case (Inr q)
      then show ?thesis using Cons.IH [of B q] by (simp add: Ret)
    qed
  qed
qed

lemma run_blocks_after:
  "blocks_inv so p B \<Longrightarrow> malloc_respects so ops p B \<Longrightarrow> run so ops p = Inr (xs, p') \<Longrightarrow>
   blocks_inv so p' (blocks_after so ops p B) \<and> m_cnt p' = m_cnt p"
proof (induction ops arbitrary: p B xs)
  case Nil
  then show ?case by simp
next
  case (Cons a ops)
  show ?case
  proof (cases a)
    case (Get mal)
    let ?n = "malloc_size so (m_cnt p)"
    let ?B1 = "if grows p then mal ?n # B else B"
    from Cons.prems(3) Get obtain x q ys where g: "get so mal p = Inr (x, q)"
      and r: "run so ops q = Inr (ys, p')"
      by (auto split: sum.splits prod.splits)
    have ok: "grows p \<longrightarrow> malloc_ok ?n (mal ?n) B"
      using Cons.prems(2) Get by (simp add: Let_def split: if_splits)
    have mr: "malloc_respects so ops q ?B1"
      using Cons.prems(2) Get g by (simp add: Let_def split: if_splits)
    from get_blocks_inv [OF Cons.prems(1) g ok] have b1: "blocks_inv so q ?B1"
      and c1: "m_cnt q = m_cnt p" by simp_all
    have "blocks_after so (a # ops) p B = blocks_after so ops q ?B1"
      by (simp add: Get g)
    with Cons.IH [OF b1 mr r] c1 show ?thesis by simp
  next
    case (Ret t)
    from Cons.prems(3) Ret obtain q where g: "ret t p = Inr q"
      and r: "run so ops q = Inr (xs, p')"
      by (auto split: sum.splits)
    have mr: "malloc_respects so ops q B" using Cons.prems(2) Ret g by simp
    have "blocks_after so (a # ops) p B = blocks_after so ops q B" by (simp add: Ret g)
    with Cons.IH [OF ret_blocks_inv [OF Cons.prems(1) g] mr r] ret_cnt [OF g]
    show ?thesis by simp
  qed
qed

text \<open>What one call of get returns, and what it does to the free list.\<close>

lemma get_returns:
  assumes binv: "blocks_inv so p B" and g: "get so mal p = Inr (x, q)"
    and ok: "grows p \<longrightarrow> malloc_ok (malloc_size so (m_cnt p)) (mal (malloc_size so (m_cnt p))) B"
  shows "Obj_next q = Obj_next p
    \<and> ((m_free p \<noteq> nullptr \<and> x = m_free p \<and> m_free q = Obj_next p x)
       \<or> (m_free p = nullptr \<and> m_free q = nullptr
           \<and> x \<in> all_slots so (m_cnt p)
                 (if grows p then mal (malloc_size so (m_cnt p)) # B else B)))"
proof (cases "grows p")
  case True
  let ?b = "mal (malloc_size so (m_cnt p))"
  from get_grow_blocks_inv [OF binv True _ g] ok True have
    x: "x = slot so ?b 0" and fr: "m_free q = m_free p" and nx: "Obj_next q = Obj_next p"
    by simp_all
  have f: "m_free p = nullptr" using True by (simp add: grows_def)
  have "0 < unat (m_cnt p)" using binv by (intro unat_pos) (simp add: blocks_inv_def)
  then have "x \<in> all_slots so (m_cnt p) (?b # B)" by (auto simp: all_slots_def x)
  with True f fr nx show ?thesis by simp
next
  case False
  from not_grows_cases [OF False] show ?thesis
  proof
    assume f: "m_free p \<noteq> nullptr"
    from get_freeD [OF f g] f show ?thesis by simp
  next
    assume a: "m_free p = nullptr \<and> m_curr p < m_last p"
    then have f: "m_free p = nullptr" and lt: "m_curr p < m_last p" by simp_all
    from get_bumpD [OF f lt g] have x: "x = m_curr p"
      and q: "q = p\<lparr>m_use_cnt := m_use_cnt p + 1, m_curr := m_curr p + so\<rparr>" by simp_all
    have so: "0 < so" using binv by (simp add: blocks_inv_def)
    have ne: "B \<noteq> []" using binv lt by (auto simp: blocks_inv_def)
    with binv obtain k where k: "k \<le> unat (m_cnt p)" "m_curr p = slot so (hd B) k"
      and l: "m_last p = slot so (hd B) (unat (m_cnt p))"
      by (auto simp: blocks_inv_def)
    from lt k l so have kc: "k < unat (m_cnt p)" by (simp add: slot_mono)
    have "hd B \<in> set B" using ne by simp
    then have "x \<in> all_slots so (m_cnt p) B" using kc by (auto simp: all_slots_def x k)
    with False f show ?thesis by (simp add: q)
  qed
qed

lemma run_returns_slots:
  "blocks_inv so p B \<Longrightarrow> links_inv p W \<Longrightarrow> W \<subseteq> set R \<Longrightarrow>
   set R \<subseteq> all_slots so (m_cnt p) B \<Longrightarrow>
   malloc_respects so ops p B \<Longrightarrow> returns_issued so ops p R \<Longrightarrow>
   run so ops p = Inr (xs, p') \<Longrightarrow>
   set xs \<subseteq> all_slots so (m_cnt p) (blocks_after so ops p B)"
proof (induction ops arbitrary: p B W R xs)
  case Nil
  then show ?case by simp
next
  case (Cons a ops)
  show ?case
  proof (cases a)
    case (Get mal)
    let ?n = "malloc_size so (m_cnt p)"
    let ?B1 = "if grows p then mal ?n # B else B"
    from Cons.prems(7) Get obtain x q ys where g: "get so mal p = Inr (x, q)"
      and r: "run so ops q = Inr (ys, p')" and xs: "xs = x # ys"
      by (auto split: sum.splits prod.splits)
    have ok: "grows p \<longrightarrow> malloc_ok ?n (mal ?n) B"
      using Cons.prems(5) Get by (simp add: Let_def split: if_splits)
    have mr: "malloc_respects so ops q ?B1"
      using Cons.prems(5) Get g by (simp add: Let_def split: if_splits)
    have ri: "returns_issued so ops q (x # R)" using Cons.prems(6) Get g by simp
    from get_blocks_inv [OF Cons.prems(1) g ok] have b1: "blocks_inv so q ?B1"
      and c1: "m_cnt q = m_cnt p" by simp_all
    have mono: "all_slots so (m_cnt p) B \<subseteq> all_slots so (m_cnt p) ?B1"
      by (intro all_slots_mono) auto
    from get_returns [OF Cons.prems(1) g ok] have nx: "Obj_next q = Obj_next p"
      and cs: "(m_free p \<noteq> nullptr \<and> x = m_free p \<and> m_free q = Obj_next p x)
       \<or> (m_free p = nullptr \<and> m_free q = nullptr \<and> x \<in> all_slots so (m_cnt p) ?B1)"
      by simp_all
    have fW: "m_free p = nullptr \<or> m_free p \<in> W"
      and nW: "\<forall>y\<in>W. Obj_next p y = nullptr \<or> Obj_next p y \<in> W"
      using Cons.prems(2) by (simp_all add: links_inv_def)
    have xin: "x \<in> all_slots so (m_cnt p) ?B1"
      using cs fW Cons.prems(3,4) mono by blast
    have l1: "links_inv q W"
      unfolding links_inv_def nx using cs fW nW by auto
    have W1: "W \<subseteq> set (x # R)" using Cons.prems(3) by auto
    have R1: "set (x # R) \<subseteq> all_slots so (m_cnt q) ?B1"
      using xin Cons.prems(4) mono by (auto simp: c1)
    from Cons.IH [OF b1 l1 W1 R1 mr ri r]
    have ys: "set ys \<subseteq> all_slots so (m_cnt p) (blocks_after so ops q ?B1)"
      by (simp add: c1)
    have "all_slots so (m_cnt p) ?B1 \<subseteq> all_slots so (m_cnt p) (blocks_after so ops q ?B1)"
      by (intro all_slots_mono blocks_after_mono)
    with xin have "x \<in> all_slots so (m_cnt p) (blocks_after so ops q ?B1)" by blast
    moreover have "blocks_after so (a # ops) p B = blocks_after so ops q ?B1"
      by (simp add: Get g)
    ultimately show ?thesis using ys by (simp add: xs)
  next
    case (Ret t)
    from Cons.prems(7) Ret obtain q where g: "ret t p = Inr q"
      and r: "run so ops q = Inr (xs, p')"
      by (auto split: sum.splits)
    have t: "t \<in> set R" using Cons.prems(6) Ret by simp
    have t0: "t \<noteq> nullptr" using g by (auto simp: ret_def Let_def split: if_splits)
    have q: "q = p\<lparr>m_use_cnt := m_use_cnt p - 1,
        Obj_next := (Obj_next p)(t := m_free p), m_free := t\<rparr>"
      using g t0 by (simp add: ret_def Let_def)
    have mr: "malloc_respects so ops q B" using Cons.prems(5) Ret g by simp
    have ri: "returns_issued so ops q R" using Cons.prems(6) Ret g by simp
    have b1: "blocks_inv so q B" by (rule ret_blocks_inv [OF Cons.prems(1) g])
    have c1: "m_cnt q = m_cnt p" by (rule ret_cnt [OF g])
    have fW: "m_free p = nullptr \<or> m_free p \<in> W"
      and nW: "\<forall>y\<in>W. Obj_next p y = nullptr \<or> Obj_next p y \<in> W"
      using Cons.prems(2) by (simp_all add: links_inv_def)
    have l1: "links_inv q (insert t W)"
      unfolding links_inv_def using fW nW by (auto simp: q)
    have W1: "insert t W \<subseteq> set R" using Cons.prems(3) t by auto
    have R1: "set R \<subseteq> all_slots so (m_cnt q) B" using Cons.prems(4) by (simp add: c1)
    from Cons.IH [OF b1 l1 W1 R1 mr ri r]
    have "set xs \<subseteq> all_slots so (m_cnt p) (blocks_after so ops q B)" by (simp add: c1)
    moreover have "blocks_after so (a # ops) p B = blocks_after so ops q B"
      by (simp add: Ret g)
    ultimately show ?thesis by simp
  qed
qed

lemma total_bounds:
  assumes so: "0 < so" and o: "Pool_object so mal cnt raw = Inr p"
    and fit: "block_bytes so (m_cnt p) < 2 ^ 64"
    and ok: "malloc_ok (malloc_size so (m_cnt p)) (m_blocks p) []"
    and mr: "malloc_respects so (ops @ ops') p (ctor_blocks cnt p)"
    and r1: "run so ops p = Inr (xs, p1)"
    and r2: "run so (ops @ ops') p = Inr (ys, p2)"
  shows "unat (fst (total_cnt p)) \<le> unat (fst (total_cnt p1))
    \<and> unat (fst (total_cnt p1)) \<le> unat (fst (total_cnt p2))
    \<and> unat (m_cnt p) dvd unat (fst (total_cnt p2))
    \<and> m_cnt p2 = m_cnt p"
proof -
  let ?B0 = "ctor_blocks cnt p"
  let ?c = "unat (m_cnt p)"
  from Pool_object_inv [OF so o fit ok] have b0: "blocks_inv so p ?B0" by simp
  from run_blocks_inv_app [OF b0 mr r1] obtain B1 where
    b1: "blocks_inv so p1 (B1 @ ?B0)" and c1: "m_cnt p1 = m_cnt p"
    and m1: "malloc_respects so ops' p1 (B1 @ ?B0)" by blast
  from run_appendD [OF r1 r2] obtain xs' where r': "run so ops' p1 = Inr (xs', p2)" by blast
  from m1 have m1': "malloc_respects so (ops' @ []) p1 (B1 @ ?B0)" by simp
  from run_blocks_inv_app [OF b1 m1' r'] obtain B2 where
    b2: "blocks_inv so p2 (B2 @ B1 @ ?B0)" and c2: "m_cnt p2 = m_cnt p1" by blast
  have t0: "unat (fst (total_cnt p)) = length ?B0 * ?c" by (rule blocks_total [OF b0])
  have t1: "unat (fst (total_cnt p1)) = length (B1 @ ?B0) * ?c"
    using blocks_total [OF b1] by (simp add: c1)
  have t2: "unat (fst (total_cnt p2)) = length (B2 @ B1 @ ?B0) * ?c"
    using blocks_total [OF b2] by (simp add: c1 c2)
  have a: "unat (fst (total_cnt p)) \<le> unat (fst (total_cnt p1))"
    unfolding t0 t1 by (intro mult_le_mono1) simp
  have b: "unat (fst (total_cnt p1)) \<le> unat (fst (total_cnt p2))"
    unfolding t1 t2 by (intro mult_le_mono1) simp
  have c: "?c dvd unat (fst (total_cnt p2))" unfolding t2 by simp
  from a b c c1 c2 show ?thesis by simp
qed

lemma slots_bound:
  assumes so: "0 < so" and o: "Pool_object so mal cnt raw = Inr p"
    and fit: "block_bytes so (m_cnt p) < 2 ^ 64"
    and ok: "malloc_ok (malloc_size so (m_cnt p)) (m_blocks p) []"
    and mr: "malloc_respects so ops p (ctor_blocks cnt p)"
    and r: "run so ops p = Inr (ys, p2)"
  shows "card (set ys \<inter> all_slots so (m_cnt p) (blocks_after so ops p (ctor_blocks cnt p)))
      \<le> unat (fst (total_cnt p2))
    \<and> (returns_issued so ops p [] \<longrightarrow>
         set ys \<subseteq> all_slots so (m_cnt p) (blocks_after so ops p (ctor_blocks cnt p))
         \<and> card (set ys) \<le> unat (fst (total_cnt p2)))"
proof -
  let ?B0 = "ctor_blocks cnt p"
  let ?Bf = "blocks_after so ops p ?B0"
  let ?S = "all_slots so (m_cnt p) ?Bf"
  from Pool_object_inv [OF so o fit ok] have b0: "blocks_inv so p ?B0"
    and s0: "slots_inv so p [] [] ?B0" by simp_all
  from run_blocks_after [OF b0 mr r] have bf: "blocks_inv so p2 ?Bf"
    and cf: "m_cnt p2 = m_cnt p" by simp_all
  have tf: "unat (fst (total_cnt p2)) = length ?Bf * unat (m_cnt p)"
    using blocks_total [OF bf] by (simp add: cf)
  from card_all_slots [of so "m_cnt p" ?Bf] have f: "finite ?S"
    and k: "card ?S \<le> length ?Bf * unat (m_cnt p)" by simp_all
  have "card (set ys \<inter> ?S) \<le> card ?S" using f by (intro card_mono) simp_all
  with k tf have 1: "card (set ys \<inter> ?S) \<le> unat (fst (total_cnt p2))" by simp
  have 2: "returns_issued so ops p [] \<longrightarrow>
      set ys \<subseteq> ?S \<and> card (set ys) \<le> unat (fst (total_cnt p2))"
  proof
    assume ri: "returns_issued so ops p []"
    have fr: "m_free p = nullptr" using s0 by (simp add: slots_inv_def)
    then have l0: "links_inv p {}" by (simp add: links_inv_def)
    have "set ys \<subseteq> ?S"
      by (rule run_returns_slots [OF b0 l0 _ _ mr ri r]) simp_all
    moreover from this have "card (set ys) \<le> card ?S" using f by (intro card_mono)
    ultimately show "set ys \<subseteq> ?S \<and> card (set ys) \<le> unat (fst (total_cnt p2))"
      using k tf by simp
  qed
  from 1 2 show ?thesis by blast
qed

subsection \<open>A concrete run\<close>

lemma hinted_pool_constructed: "Pool_object 16 first_block 2 raw_storage = Inr hinted_pool"
  by (simp add: Pool_object_def new_block_def Pool_init_def raw_storage_def hinted_pool_def
     nullptr_def sizeof_Block_def word_sless_alt first_block_def)

lemma example_run:
  "\<exists>p'. run 16 example_ops hinted_pool = Inr ([4104, 4120, 4104, 8200], p')"
  by (simp add: example_ops_def example_prefix_def example_suffix_def hinted_pool_def get_def
      ret_def new_block_def Let_def nullptr_def sizeof_Block_def malloc_size_def
      second_block_def)

lemma example_prefix_run:
  "\<exists>p'. run 16 example_prefix hinted_pool = Inr ([4104, 4120], p')"
  by (simp add: example_prefix_def hinted_pool_def get_def
      ret_def new_block_def Let_def nullptr_def sizeof_Block_def malloc_size_def
      second_block_def)

lemma example_malloc_respects: "malloc_respects 16 example_ops hinted_pool [4096]"
  by (simp add: example_ops_def example_prefix_def example_suffix_def hinted_pool_def get_def
      ret_def new_block_def Let_def nullptr_def sizeof_Block_def malloc_size_def
      second_block_def grows_def malloc_ok_def)

lemma example_caller_respects: "caller_respects 16 example_ops hinted_pool []"
  by (simp add: example_ops_def example_prefix_def example_suffix_def hinted_pool_def get_def
      ret_def new_block_def Let_def nullptr_def sizeof_Block_def malloc_size_def
      second_block_def)

lemma example_fits:
  "block_bytes 16 (m_cnt hinted_pool) < 2 ^ 64"
  "malloc_ok (malloc_size 16 (m_cnt hinted_pool)) (m_blocks hinted_pool) []"
  "ctor_blocks 2 hinted_pool = [4096]"
  by (simp_all add: block_bytes_def hinted_pool_def sizeof_Block_def malloc_ok_def
      malloc_size_def ctor_blocks_def word_sless_alt)

lemma example_returns_issued: "returns_issued 16 example_ops hinted_pool []"
  by (simp add: example_ops_def example_prefix_def example_suffix_def hinted_pool_def get_def
      ret_def new_block_def Let_def nullptr_def sizeof_Block_def malloc_size_def
      second_block_def)

lemma example_blocks_after: "blocks_after 16 example_ops hinted_pool [4096] = [8192, 4096]"
  by (simp add: example_ops_def example_prefix_def example_suffix_def hinted_pool_def get_def
      ret_def new_block_def Let_def nullptr_def sizeof_Block_def malloc_size_def
      second_block_def grows_def)

lemma double_release_admitted:
  "returns_issued 16 [Get second_block, Ret 4104, Ret 4104] hinted_pool []"
  "\<not> caller_respects 16 [Get second_block, Ret 4104, Ret 4104] hinted_pool []"
  by (simp_all add: hinted_pool_def get_def ret_def Let_def nullptr_def)

lemma example_counts: "gets example_ops = 4" "rets example_ops = 1"
  by (simp_all add: example_ops_def example_prefix_def example_suffix_def)

subsection \<open>The counters over runs\<close>

text \<open>
  C5. Take a pool as its constructor leaves it, for objects of a positive size and with a
  block that fits the address space, and a run on it that returns, during which \<^verbatim>\<open>malloc\<close>
  keeps its promise and every \<^verbatim>\<open>ret()\<close> passes a pointer obtained from a preceding \<^verbatim>\<open>get()\<close>
  and not returned since. Then the run has at least as many calls of \<^verbatim>\<open>get()\<close> as of
  \<^verbatim>\<open>ret()\<close>, and \<^verbatim>\<open>use_cnt()\<close> reports their difference. Every call of \<^verbatim>\<open>get()\<close> that returns
  adds one to \<^verbatim>\<open>use_cnt()\<close> and every call of \<^verbatim>\<open>ret()\<close> that returns subtracts one.
\<close>

theorem use_cnt_counts:
  "(0 < so \<and> Pool_object so mal cnt raw = Inr p \<and> block_bytes so (m_cnt p) < 2 ^ 64
      \<and> malloc_ok (malloc_size so (m_cnt p)) (m_blocks p) []
      \<and> malloc_respects so ops p (ctor_blocks cnt p) \<and> caller_respects so ops p []
      \<and> run so ops p = Inr (xs, p')
     \<longrightarrow> rets ops \<le> gets ops \<and> unat (fst (use_cnt p')) = gets ops - rets ops)
   \<and> (get so mal' q = Inr (x, q') \<longrightarrow> fst (use_cnt q') = fst (use_cnt q) + 1)
   \<and> (ret t q = Inr q' \<longrightarrow> fst (use_cnt q') = fst (use_cnt q) - 1)"
proof (intro conjI impI)
  assume a: "0 < so \<and> Pool_object so mal cnt raw = Inr p \<and> block_bytes so (m_cnt p) < 2 ^ 64
      \<and> malloc_ok (malloc_size so (m_cnt p)) (m_blocks p) []
      \<and> malloc_respects so ops p (ctor_blocks cnt p) \<and> caller_respects so ops p []
      \<and> run so ops p = Inr (xs, p')"
  then have "rets ops \<le> gets ops \<and> unat (fst (use_cnt p')) = gets ops - rets ops"
    by (intro live_count [of so mal cnt raw p ops xs p']) simp_all
  then show "rets ops \<le> gets ops" and "unat (fst (use_cnt p')) = gets ops - rets ops"
    by simp_all
next
  assume "get so mal' q = Inr (x, q')"
  then show "fst (use_cnt q') = fst (use_cnt q) + 1"
    by (simp add: use_cnt_def get_use_cnt)
next
  assume "ret t q = Inr q'"
  then show "fst (use_cnt q') = fst (use_cnt q) - 1"
    by (simp add: use_cnt_def ret_use_cnt)
qed

theorem use_cnt_counts_witness:
  "Pool_object 16 first_block 2 raw_storage = Inr hinted_pool
   \<and> malloc_respects 16 example_ops hinted_pool [4096]
   \<and> caller_respects 16 example_ops hinted_pool []
   \<and> gets example_ops = 4 \<and> rets example_ops = 1
   \<and> (\<exists>p'. run 16 example_ops hinted_pool = Inr ([4104, 4120, 4104, 8200], p')
          \<and> unat (fst (use_cnt p')) = 3)"
proof -
  from example_run obtain p' where
    r: "run 16 example_ops hinted_pool = Inr ([4104, 4120, 4104, 8200], p')" by blast
  from use_cnt_counts [where so=16 and mal=first_block and cnt=2 and raw=raw_storage
      and p=hinted_pool and ops=example_ops and xs="[4104, 4120, 4104, 8200]" and p'=p']
    hinted_pool_constructed example_fits example_malloc_respects example_caller_respects r
  have "unat (fst (use_cnt p')) = gets example_ops - rets example_ops" by simp
  then have "unat (fst (use_cnt p')) = 3" by (simp add: example_counts)
  with r hinted_pool_constructed example_malloc_respects example_caller_respects
    example_counts
  show ?thesis by blast
qed

text \<open>
  C7. Take a pool as its constructor leaves it, for objects of a positive size and with a
  block that fits the address space, and a run on it during which \<^verbatim>\<open>malloc\<close> keeps its
  promise; the calls of \<^verbatim>\<open>ret()\<close> may pass any pointers. Then \<^verbatim>\<open>total_cnt()\<close> after any prefix of
  the run is at least what it was at the start and at most what it is at the end; it is a
  multiple of the configured slot count (the hint if positive, else 128), which the run does
  not change; and the number of different slot addresses of the pool's blocks among the
  addresses returned by the calls of \<^verbatim>\<open>get()\<close> is at most \<^verbatim>\<open>total_cnt()\<close>. If every \<^verbatim>\<open>ret()\<close> of the
  run passes a pointer that some preceding \<^verbatim>\<open>get()\<close> returned, released once or more often,
  every address returned by \<^verbatim>\<open>get()\<close> is such a slot address, and the number of different
  addresses returned is at most \<^verbatim>\<open>total_cnt()\<close>.
\<close>

theorem total_cnt_bounds:
  "0 < so \<and> Pool_object so mal cnt raw = Inr p \<and> block_bytes so (m_cnt p) < 2 ^ 64
     \<and> malloc_ok (malloc_size so (m_cnt p)) (m_blocks p) []
     \<and> malloc_respects so (ops @ ops') p (ctor_blocks cnt p)
     \<and> run so ops p = Inr (xs, p1) \<and> run so (ops @ ops') p = Inr (ys, p2)
   \<longrightarrow> unat (fst (total_cnt p)) \<le> unat (fst (total_cnt p1))
     \<and> unat (fst (total_cnt p1)) \<le> unat (fst (total_cnt p2))
     \<and> unat (m_cnt p) dvd unat (fst (total_cnt p2))
     \<and> m_cnt p2 = m_cnt p \<and> m_cnt p = (if 0 <s cnt then cnt else 128)
     \<and> card (set ys \<inter> all_slots so (m_cnt p)
               (blocks_after so (ops @ ops') p (ctor_blocks cnt p)))
          \<le> unat (fst (total_cnt p2))
     \<and> (returns_issued so (ops @ ops') p [] \<longrightarrow>
           set ys \<subseteq> all_slots so (m_cnt p)
               (blocks_after so (ops @ ops') p (ctor_blocks cnt p))
           \<and> card (set ys) \<le> unat (fst (total_cnt p2)))"
proof
  assume a: "0 < so \<and> Pool_object so mal cnt raw = Inr p \<and> block_bytes so (m_cnt p) < 2 ^ 64
     \<and> malloc_ok (malloc_size so (m_cnt p)) (m_blocks p) []
     \<and> malloc_respects so (ops @ ops') p (ctor_blocks cnt p)
     \<and> run so ops p = Inr (xs, p1) \<and> run so (ops @ ops') p = Inr (ys, p2)"
  then have 1: "unat (fst (total_cnt p)) \<le> unat (fst (total_cnt p1))
     \<and> unat (fst (total_cnt p1)) \<le> unat (fst (total_cnt p2))
     \<and> unat (m_cnt p) dvd unat (fst (total_cnt p2))
     \<and> m_cnt p2 = m_cnt p"
    by (intro total_bounds [of so mal cnt raw p ops ops' xs p1 ys p2]) simp_all
  have 2: "m_cnt p = (if 0 <s cnt then cnt else 128)"
    using a by (intro Pool_object_cnt [of so mal cnt raw p]) simp
  from a have 3: "card (set ys \<inter> all_slots so (m_cnt p)
               (blocks_after so (ops @ ops') p (ctor_blocks cnt p)))
          \<le> unat (fst (total_cnt p2))
     \<and> (returns_issued so (ops @ ops') p [] \<longrightarrow>
           set ys \<subseteq> all_slots so (m_cnt p)
               (blocks_after so (ops @ ops') p (ctor_blocks cnt p))
           \<and> card (set ys) \<le> unat (fst (total_cnt p2)))"
    by (intro slots_bound [of so mal cnt raw p "ops @ ops'" ys p2]) simp_all
  from 1 2 3 show "unat (fst (total_cnt p)) \<le> unat (fst (total_cnt p1))
     \<and> unat (fst (total_cnt p1)) \<le> unat (fst (total_cnt p2))
     \<and> unat (m_cnt p) dvd unat (fst (total_cnt p2))
     \<and> m_cnt p2 = m_cnt p \<and> m_cnt p = (if 0 <s cnt then cnt else 128)
     \<and> card (set ys \<inter> all_slots so (m_cnt p)
               (blocks_after so (ops @ ops') p (ctor_blocks cnt p)))
          \<le> unat (fst (total_cnt p2))
     \<and> (returns_issued so (ops @ ops') p [] \<longrightarrow>
           set ys \<subseteq> all_slots so (m_cnt p)
               (blocks_after so (ops @ ops') p (ctor_blocks cnt p))
           \<and> card (set ys) \<le> unat (fst (total_cnt p2)))"
    by blast
qed

theorem total_cnt_bounds_witness:
  "Pool_object 16 first_block 2 raw_storage = Inr hinted_pool
   \<and> malloc_respects 16 (example_prefix @ example_suffix) hinted_pool [4096]
   \<and> returns_issued 16 (example_prefix @ example_suffix) hinted_pool []
   \<and> blocks_after 16 (example_prefix @ example_suffix) hinted_pool [4096] = [8192, 4096]
   \<and> (\<exists>p1 p2. run 16 example_prefix hinted_pool = Inr ([4104, 4120], p1)
          \<and> run 16 (example_prefix @ example_suffix) hinted_pool
               = Inr ([4104, 4120, 4104, 8200], p2)
          \<and> unat (fst (total_cnt hinted_pool)) \<le> unat (fst (total_cnt p1))
          \<and> unat (fst (total_cnt p1)) \<le> unat (fst (total_cnt p2))
          \<and> unat (m_cnt hinted_pool) dvd unat (fst (total_cnt p2))
          \<and> card (set [4104, 4120, 4104, 8200] \<inter> all_slots 16 2 [8192, 4096])
               \<le> unat (fst (total_cnt p2))
          \<and> card (set [4104, 4120, 4104, 8200::nat]) \<le> unat (fst (total_cnt p2)))"
proof -
  from example_prefix_run obtain p1 where
    r1: "run 16 example_prefix hinted_pool = Inr ([4104, 4120], p1)" by blast
  from example_run obtain p2 where
    r2: "run 16 (example_prefix @ example_suffix) hinted_pool
           = Inr ([4104, 4120, 4104, 8200], p2)"
    unfolding example_ops_def by blast
  have mr: "malloc_respects 16 (example_prefix @ example_suffix) hinted_pool [4096]"
    using example_malloc_respects by (simp only: example_ops_def)
  have ri: "returns_issued 16 (example_prefix @ example_suffix) hinted_pool []"
    using example_returns_issued by (simp only: example_ops_def)
  have ba: "blocks_after 16 (example_prefix @ example_suffix) hinted_pool [4096] = [8192, 4096]"
    using example_blocks_after by (simp only: example_ops_def)
  have cn: "m_cnt hinted_pool = 2" by (simp add: hinted_pool_def)
  have h: "0 < (16::nat) \<and> Pool_object 16 first_block 2 raw_storage = Inr hinted_pool
     \<and> block_bytes 16 (m_cnt hinted_pool) < 2 ^ 64
     \<and> malloc_ok (malloc_size 16 (m_cnt hinted_pool)) (m_blocks hinted_pool) []
     \<and> malloc_respects 16 (example_prefix @ example_suffix) hinted_pool
          (ctor_blocks 2 hinted_pool)
     \<and> run 16 example_prefix hinted_pool = Inr ([4104, 4120], p1)
     \<and> run 16 (example_prefix @ example_suffix) hinted_pool
          = Inr ([4104, 4120, 4104, 8200], p2)"
    using hinted_pool_constructed example_fits mr r1 r2 by simp
  have ri': "returns_issued 16 (example_prefix @ example_suffix) hinted_pool []
      \<longrightarrow> card (set [4104, 4120, 4104, 8200::nat]) \<le> unat (fst (total_cnt p2))"
    using total_cnt_bounds [where so=16 and mal=first_block and cnt=2 and raw=raw_storage
      and p=hinted_pool and ops=example_prefix and ops'=example_suffix
      and xs="[4104, 4120]" and ?p1.0=p1 and ys="[4104, 4120, 4104, 8200]" and ?p2.0=p2,
      THEN mp, OF h] by blast
  have sl: "card (set [4104, 4120, 4104, 8200] \<inter> all_slots 16 (m_cnt hinted_pool)
        (blocks_after 16 (example_prefix @ example_suffix) hinted_pool
          (ctor_blocks 2 hinted_pool))) \<le> unat (fst (total_cnt p2))"
    using total_cnt_bounds [where so=16 and mal=first_block and cnt=2 and raw=raw_storage
      and p=hinted_pool and ops=example_prefix and ops'=example_suffix
      and xs="[4104, 4120]" and ?p1.0=p1 and ys="[4104, 4120, 4104, 8200]" and ?p2.0=p2,
      THEN mp, OF h] by blast
  have sl': "card (set [4104, 4120, 4104, 8200] \<inter> all_slots 16 2 [8192, 4096])
      \<le> unat (fst (total_cnt p2))"
    using sl by (simp only: cn example_fits(3) ba)
  have "unat (fst (total_cnt hinted_pool)) \<le> unat (fst (total_cnt p1))
     \<and> unat (fst (total_cnt p1)) \<le> unat (fst (total_cnt p2))
     \<and> unat (m_cnt hinted_pool) dvd unat (fst (total_cnt p2))"
    using total_cnt_bounds [where so=16 and mal=first_block and cnt=2 and raw=raw_storage
      and p=hinted_pool and ops=example_prefix and ops'=example_suffix
      and xs="[4104, 4120]" and ?p1.0=p1 and ys="[4104, 4120, 4104, 8200]" and ?p2.0=p2,
      THEN mp, OF h] by blast
  with r1 r2 hinted_pool_constructed mr ri ba ri' sl' show ?thesis by blast
qed

end
